theory Spec2Isabelle
  imports Main "HOL-Library.Word"
begin

section \<open>The file logger of memcached (extensions/loggers/file\_logger.c)\<close>

text \<open>
  The logger keeps two byte buffers. Front-end threads format a record, mirror it on
  standard error and append it to the buffer selected by \<open>currbuffer\<close>; one background
  thread flips \<open>currbuffer\<close> and writes the other buffer to the current log file.
  The embedding lists the static variables of the C file, the locals of the background
  thread and the storage it writes to in one record, and turns every C function into a
  function on that record.

  Conventions of the embedding.
  \<^item> A \<open>size_t\<close> is a \<open>nat\<close>: every sum the code forms is bounded by the buffer size plus
    one record (2048 bytes), far from \<open>2^64\<close> for any buffer \<open>malloc\<close> can return.
  \<^item> The C \<open>int\<close> \<open>lastlog.count\<close> is a 32-bit word, read signed by \<open>count > 1\<close> and
    unsigned by the conversion \<open>%u\<close>.
  \<^item> A function that touches memory it must not touch returns a \<open>fault\<close>; a function
    whose loop never ends returns \<open>None\<close>.
  \<^item> The mutex is not modelled: each function runs as one critical section. The place
    where a front-end thread releases the mutex, \<open>cb_cond_wait\<close>, applies an
    environment function \<open>env\<close> to the state: what the other threads did meanwhile.
  \<^item> Signalling a condition variable changes no variable and is left out.
\<close>

subsection \<open>Data\<close>

datatype fault =
    Use_after_free      \<comment> \<open>\<open>memcpy\<close> into a buffer the background thread has freed\<close>
  | Out_of_bounds       \<comment> \<open>\<open>memcmp\<close> past the 512 bytes of \<open>lastlog.buffer\<close>\<close>
  | Buffer_overrun      \<comment> \<open>a text printed past the end of its array\<close>
  | Null_handle         \<comment> \<open>\<open>fwrite\<close> on the null handle of a failed \<open>fopen\<close>\<close>

record logbuffer =
  data :: "string option"   \<comment> \<open>the \<open>malloc\<close>ed segment; \<open>None\<close> once freed\<close>
  offset :: nat

record lastlog_t =
  ll_buffer :: string       \<comment> \<open>\<open>char buffer[512]\<close>\<close>
  ll_count :: "32 word"
  ll_offset :: nat

record stored_file =
  content :: string         \<comment> \<open>the bytes accepted by the write primitive\<close>
  synced :: nat             \<comment> \<open>how many of them the last \<open>flush\<close> covered\<close>

datatype clock = Clock_failed string | Clock string

record logger =
  current_log_level :: nat
  output_level :: nat
  cyclesz :: nat
  buffers :: "nat \<Rightarrow> logbuffer"
  currbuffer :: nat
  prettyprint :: bool
  unit_test :: bool
  buffersz :: nat
  lastlog :: lastlog_t
  run :: bool
  stderr :: string
  fp :: "string option"
  currsize :: nat
  next_id :: "32 word"
  files :: "string \<Rightarrow> stored_file option"
  closed :: "string list"
  io_calls :: nat

type_synonym 'a result = "(fault + 'a) option"

definition ok :: "'a \<Rightarrow> 'a result" where
  "ok x = Some (Inr x)"

definition crash :: "fault \<Rightarrow> 'a result" where
  "crash f = Some (Inl f)"

definition and_then :: "'a result \<Rightarrow> ('a \<Rightarrow> 'b result) \<Rightarrow> 'b result" where
  "and_then r k = Option.bind r (\<lambda>x. case x of Inl f \<Rightarrow> Some (Inl f) | Inr s \<Rightarrow> k s)"

subsection \<open>Text conversions\<close>

definition nl :: char where
  "nl = CHR 0x0A"

definition digit :: "nat \<Rightarrow> char" where
  "digit d = char_of (48 + d)"

function dec :: "nat \<Rightarrow> string" where
  "dec n = (if n < 10 then [digit n] else dec (n div 10) @ [digit (n mod 10)])"
  by pat_completeness auto
termination
  by (relation "measure id") auto

text \<open>
  Modelled from the spec: the enumeration \<open>EXTENSION_LOG_LEVEL\<close> is declared in
  \<open>memcached/extension.h\<close>, which is not among the sources. The spec orders the levels
  detail, debug, info, warning by increasing severity; they are numbered from 0 as the
  members of a C enumeration are.
\<close>

definition EXTENSION_LOG_DETAIL :: nat where "EXTENSION_LOG_DETAIL = 0"
definition EXTENSION_LOG_DEBUG :: nat where "EXTENSION_LOG_DEBUG = 1"
definition EXTENSION_LOG_INFO :: nat where "EXTENSION_LOG_INFO = 2"
definition EXTENSION_LOG_WARNING :: nat where "EXTENSION_LOG_WARNING = 3"

definition severity2string :: "nat \<Rightarrow> string" where
  "severity2string sev =
     (if sev = EXTENSION_LOG_WARNING then ''WARNING''
      else if sev = EXTENSION_LOG_INFO then ''INFO''
      else if sev = EXTENSION_LOG_DEBUG then ''DEBUG''
      else if sev = EXTENSION_LOG_DETAIL then ''DETAIL''
      else ''????'')"

subsection \<open>Appending to the active buffer\<close>

definition space_warning :: string where
  "space_warning = ''WARNING: waiting for log space to be available'' @ [nl]"

definition memcpy_at :: "string \<Rightarrow> nat \<Rightarrow> string \<Rightarrow> string" where
  "memcpy_at dst pos src = take pos dst @ src @ drop (pos + length src) dst"

definition cur :: "logger \<Rightarrow> logbuffer" where
  "cur s = buffers s (currbuffer s)"

text \<open>
  \<open>do_add_log_entry\<close>: the caller waits while the record would reach the end of the
  active buffer; each wait prints a warning (outside unit tests) and gives the other
  threads their turn. Then the record is copied behind the used part of the buffer.
\<close>

partial_function (option) do_add_log_entry ::
  "(logger \<Rightarrow> logger) \<Rightarrow> string \<Rightarrow> logger \<Rightarrow> logger result" where
  "do_add_log_entry env msg s =
     (if offset (cur s) + length msg \<ge> buffersz s
      then do_add_log_entry env msg
             (env (if unit_test s then s else s\<lparr>stderr := stderr s @ space_warning\<rparr>))
      else (case data (cur s) of
              None \<Rightarrow> Some (Inl Use_after_free)
            | Some d \<Rightarrow>
                Some (Inr (s\<lparr>buffers := (buffers s)(currbuffer s :=
                       \<lparr>data = Some (memcpy_at d (offset (cur s)) msg),
                        offset = offset (cur s) + length msg\<rparr>)\<rparr>))))"

definition repeated_line :: "32 word \<Rightarrow> string" where
  "repeated_line c = ''message repeated '' @ dec (unat c) @ '' times'' @ [nl]"

definition flush_last_log :: "(logger \<Rightarrow> logger) \<Rightarrow> logger \<Rightarrow> logger result" where
  "flush_last_log env s =
     (if 1 <s ll_count (lastlog s)
      then do_add_log_entry env (repeated_line (ll_count (lastlog s))) s
      else ok s)"

text \<open>
  \<open>add_log_entry msg prefixlen size\<close>; \<open>size\<close> is the length of \<open>msg\<close> at the only
  call. \<open>memcmp\<close> reads \<open>size - prefixlen\<close> bytes of \<open>lastlog.buffer\<close> from
  \<open>lastlog.offset\<close> on; the array has 512 bytes.
\<close>

definition memcmp_lastlog :: "lastlog_t \<Rightarrow> string \<Rightarrow> nat \<Rightarrow> bool" where
  "memcmp_lastlog ll msg prefixlen =
     (take (length msg - prefixlen) (drop (ll_offset ll) (ll_buffer ll)) =
      take (length msg - prefixlen) (drop prefixlen msg))"

definition add_log_entry ::
  "(logger \<Rightarrow> logger) \<Rightarrow> string \<Rightarrow> nat \<Rightarrow> logger \<Rightarrow> logger result" where
  "add_log_entry env msg prefixlen s =
     (if length msg < 512 then
        (if ll_offset (lastlog s) + (length msg - prefixlen) > 512 then crash Out_of_bounds
         else if memcmp_lastlog (lastlog s) msg prefixlen
         then ok (s\<lparr>lastlog := (lastlog s)\<lparr>ll_count := ll_count (lastlog s) + 1\<rparr>\<rparr>)
         else and_then (flush_last_log env s) (\<lambda>s1.
              and_then (do_add_log_entry env msg s1) (\<lambda>s2.
              ok (s2\<lparr>lastlog := \<lparr>ll_buffer = memcpy_at (ll_buffer (lastlog s2)) 0 msg,
                                 ll_count = 0, ll_offset = prefixlen\<rparr>\<rparr>))))
      else and_then (flush_last_log env s) (\<lambda>s1.
           do_add_log_entry env msg
             (s1\<lparr>lastlog := \<lparr>ll_buffer = (ll_buffer (lastlog s1))[0 := CHR 0x00],
                              ll_count = 0, ll_offset = 0\<rparr>\<rparr>)))"

subsection \<open>The log entry point\<close>

text \<open>
  The clock and the conversion to local time are outside the file: \<open>Clock stamp\<close> is a
  successful reading, \<open>stamp\<close> the text the first \<open>snprintf\<close> renders from it
  (\<open>Www Mmm dd hh:mm:ss.uuuuuu TZ\<close>, or seconds and microseconds when \<open>asctime\<close>
  fails); \<open>Clock_failed e\<close> is a failed \<open>gettimeofday\<close> with the text of \<open>errno\<close>.
  \<open>msg\<close> is the expansion of the format and its arguments, as \<open>vsnprintf\<close> measures it.
\<close>

definition severity_text :: "bool \<Rightarrow> nat \<Rightarrow> string" where
  "severity_text pretty sev =
     '' '' @ (if pretty then severity2string sev else dec sev) @ '': ''"

definition dropped_line :: string where
  "dropped_line = ''Log message dropped... too big'' @ [nl]"

definition clock_line :: "string \<Rightarrow> string" where
  "clock_line e = ''gettimeofday failed: '' @ e @ [nl]"

text \<open>
  \<open>fputs\<close> writes a string up to its first NUL byte. The expansion can hold one (a
  \<open>%c\<close> with the argument 0): the buffers get the record by its length, standard error
  gets it up to that byte.
\<close>

definition c_string :: "string \<Rightarrow> string" where
  "c_string text = takeWhile (\<lambda>c. c \<noteq> CHR 0x00) text"

definition terminate_line :: "string \<Rightarrow> string" where
  "terminate_line text = (if text ! (length text - 1) \<noteq> nl then text @ [nl] else text)"

definition logger_log ::
  "(logger \<Rightarrow> logger) \<Rightarrow> nat \<Rightarrow> clock \<Rightarrow> string \<Rightarrow> logger \<Rightarrow> logger result" where
  "logger_log env severity now msg s =
     (if severity \<ge> current_log_level s \<or> severity \<ge> output_level s then
        (case now of
           Clock_failed e \<Rightarrow> ok (s\<lparr>stderr := stderr s @ clock_line e\<rparr>)
         | Clock stamp \<Rightarrow>
            (let prefix = stamp @ severity_text (prettyprint s) severity;
                 prefixlen = length prefix
             in if 2047 < prefixlen then crash Buffer_overrun
                else if length msg < 2047 - prefixlen then
                  (let buffer = terminate_line (prefix @ msg);
                       s1 = (if severity \<ge> output_level s
                             then s\<lparr>stderr := stderr s @ c_string buffer\<rparr> else s)
                   in if severity \<ge> current_log_level s
                      then add_log_entry env buffer prefixlen s1
                      else ok s1)
                else ok (s\<lparr>stderr := stderr s @ dropped_line\<rparr>)))
      else ok s)"

subsection \<open>Storage\<close>

text \<open>
  \<open>struct io_ops\<close> holds the four storage primitives. What they do to the variables of
  the logger is fixed; what the outside world decides is a parameter: whether an
  \<open>open\<close> succeeds, and the value the \<open>k\<close>-th call of \<open>write\<close> returns when it is asked
  for \<open>n\<close> bytes. A file handle is the name of its file.
\<close>

record io_ops =
  open_succeeds :: "string \<Rightarrow> bool"
  write_returns :: "nat \<Rightarrow> nat \<Rightarrow> int"

definition contents :: "logger \<Rightarrow> string \<Rightarrow> string" where
  "contents s f = (case files s f of None \<Rightarrow> [] | Some x \<Rightarrow> content x)"

text \<open>\<open>int nw = iops.write(...)\<close> keeps the low 32 bits of the \<open>ssize_t\<close>, read signed.\<close>

definition c_int :: "int \<Rightarrow> int" where
  "c_int r = sint (word_of_int r :: 32 word)"

text \<open>
  The loop of \<open>flush_pending_io\<close>: \<open>ptr\<close> is the part of the buffer still to write,
  \<open>out\<close> collects the bytes the primitive has accepted, \<open>k\<close> counts its calls.
  \<open>towrite -= nw\<close> is a subtraction of \<open>size_t\<close> (64 bits): when the primitive reports
  more bytes than it was asked for, \<open>towrite\<close> wraps around and the loop goes on with
  the pointer behind the bytes it had to write (what lies there is not modelled).
\<close>

definition size_t_minus :: "nat \<Rightarrow> int \<Rightarrow> nat" where
  "size_t_minus towrite nw =
     (if nw \<le> int towrite then towrite - nat nw
      else nat ((int towrite - nw) mod 18446744073709551616))"

partial_function (option) write_loop ::
  "(nat \<Rightarrow> nat \<Rightarrow> int) \<Rightarrow> string \<Rightarrow> nat \<Rightarrow> string \<Rightarrow> nat \<Rightarrow> (string \<times> nat) option" where
  "write_loop wr ptr towrite out k =
     (if towrite > 0 then
        (if c_int (wr k towrite) > 0
         then write_loop wr (drop (nat (c_int (wr k towrite))) ptr)
                (size_t_minus towrite (c_int (wr k towrite)))
                (out @ take (nat (wr k towrite)) ptr) (k + 1)
         else write_loop wr ptr towrite (out @ take (nat (wr k towrite)) ptr) (k + 1))
      else Some (out, k))"

definition flush_pending_io ::
  "io_ops \<Rightarrow> string option \<Rightarrow> nat \<Rightarrow> logger \<Rightarrow> (nat \<times> logger) result" where
  "flush_pending_io io file i s =
     (if offset (buffers s i) > 0 then
        (case file of
           None \<Rightarrow> crash Null_handle
         | Some f \<Rightarrow>
            (case data (buffers s i) of
               None \<Rightarrow> crash Use_after_free
             | Some d \<Rightarrow>
                Option.bind
                  (write_loop (write_returns io) (take (offset (buffers s i)) d)
                     (offset (buffers s i)) [] (io_calls s))
                  (\<lambda>(out, k).
                     ok (offset (buffers s i),
                         s\<lparr>buffers := (buffers s)(i := (buffers s i)\<lparr>offset := 0\<rparr>),
                           files := (files s)(f \<mapsto>
                             \<lparr>content = contents s f @ out,
                              synced = length (contents s f @ out)\<rparr>),
                           io_calls := k\<rparr>))))
      else ok (0, s))"

subsection \<open>Log files\<close>

definition extension :: string where
  "extension = ''txt''"

text \<open>
  \<open>next_id\<close> is an \<open>unsigned int\<close>, a 32-bit word; \<open>%d\<close> prints it as a signed
  number.
\<close>

definition logfile_name :: "string \<Rightarrow> 32 word \<Rightarrow> string" where
  "logfile_name fnm i =
     fnm @ ''.'' @ (if 0 \<le> sint i then dec (nat (sint i)) else ''-'' @ dec (nat (- sint i)))
       @ ''.'' @ extension"

text \<open>
  The \<open>do ... while\<close> of \<open>open_logfile\<close>: print the name into \<open>char fname[1024]\<close>,
  increment \<open>next_id\<close>, repeat while a file of that name exists.
\<close>

partial_function (option) probe ::
  "(string \<Rightarrow> bool) \<Rightarrow> string \<Rightarrow> 32 word \<Rightarrow> (string \<times> 32 word) result" where
  "probe present fnm i =
     (if 1024 \<le> length (logfile_name fnm i) then Some (Inl Buffer_overrun)
      else if present (logfile_name fnm i) then probe present fnm (i + 1)
      else Some (Inr (logfile_name fnm i, i + 1)))"

definition open_failed_line :: string where
  "open_failed_line = ''Failed to open memcached log file'' @ [nl]"

definition open_logfile ::
  "io_ops \<Rightarrow> string \<Rightarrow> logger \<Rightarrow> (string option \<times> logger) result" where
  "open_logfile io fnm s =
     and_then (probe (\<lambda>name. files s name \<noteq> None) fnm (next_id s)) (\<lambda>(fname, i).
       if open_succeeds io fname
       then ok (Some fname,
                s\<lparr>next_id := i, files := (files s)(fname \<mapsto> \<lparr>content = [], synced = 0\<rparr>)\<rparr>)
       else ok (None, s\<lparr>next_id := i, stderr := stderr s @ open_failed_line\<rparr>))"

definition close_logfile :: "string option \<Rightarrow> logger \<Rightarrow> logger" where
  "close_logfile file s = (case file of None \<Rightarrow> s | Some f \<Rightarrow> s\<lparr>closed := f # closed s\<rparr>)"

definition reopen_logfile ::
  "io_ops \<Rightarrow> string option \<Rightarrow> string \<Rightarrow> logger \<Rightarrow> (string option \<times> logger) result" where
  "reopen_logfile io old fnm s = open_logfile io fnm (close_logfile old s)"

subsection \<open>The background thread\<close>

text \<open>
  \<open>logger_thead_main\<close> in its parts: the start (open the first file), one round of the
  inner loop (flip the buffers under the mutex, then write the buffer left behind and
  rotate the file when \<open>currsize\<close> has passed \<open>cyclesz\<close>), and the exit (write what
  remains, close the file, free the buffers). When the rounds happen is decided by the
  clock and the condition variable, outside the model.
\<close>

definition thread_start :: "io_ops \<Rightarrow> string \<Rightarrow> logger \<Rightarrow> logger result" where
  "thread_start io fnm s =
     and_then (open_logfile io fnm s) (\<lambda>(h, s1). ok (s1\<lparr>fp := h, currsize := 0\<rparr>))"

definition swap_buffers :: "logger \<Rightarrow> logger" where
  "swap_buffers s = s\<lparr>currbuffer := (if currbuffer s = 0 then 1 else 0)\<rparr>"

definition flusher_io :: "io_ops \<Rightarrow> string \<Rightarrow> nat \<Rightarrow> logger \<Rightarrow> logger result" where
  "flusher_io io fnm this s =
     and_then (flush_pending_io io (fp s) this s) (\<lambda>(n, s1).
       if currsize s1 + n > cyclesz s1
       then and_then (reopen_logfile io (fp s1) fnm s1)
              (\<lambda>(h, s2). ok (s2\<lparr>fp := h, currsize := 0\<rparr>))
       else ok (s1\<lparr>currsize := currsize s1 + n\<rparr>))"

definition flusher_cycle :: "io_ops \<Rightarrow> string \<Rightarrow> logger \<Rightarrow> logger result" where
  "flusher_cycle io fnm s = flusher_io io fnm (currbuffer s) (swap_buffers s)"

partial_function (option) drain :: "io_ops \<Rightarrow> string option \<Rightarrow> logger \<Rightarrow> logger result" where
  "drain io file s =
     (if offset (cur s) \<noteq> 0
      then Option.bind (flush_pending_io io file (currbuffer s) (swap_buffers s))
             (\<lambda>r. case r of Inl f \<Rightarrow> Some (Inl f) | Inr x \<Rightarrow> drain io file (snd x))
      else Some (Inr s))"

definition free_buffers :: "logger \<Rightarrow> logger" where
  "free_buffers s = s\<lparr>buffers := (\<lambda>i. (buffers s i)\<lparr>data := None\<rparr>)\<rparr>"

definition thread_exit :: "io_ops \<Rightarrow> logger \<Rightarrow> logger result" where
  "thread_exit io s =
     and_then (case fp s of
                 None \<Rightarrow> ok s
               | Some f \<Rightarrow> and_then (drain io (fp s) s) (\<lambda>s1. ok (close_logfile (fp s1) s1)))
       (\<lambda>s2. ok (free_buffers s2))"

subsection \<open>Stopping\<close>

text \<open>
  \<open>cb_join_thread\<close> returns when the background thread has left its loop and run its
  exit; the thread is taken to be between two rounds when \<open>run\<close> is cleared.
\<close>

definition logger_shutdown :: "(logger \<Rightarrow> logger) \<Rightarrow> io_ops \<Rightarrow> logger \<Rightarrow> logger result" where
  "logger_shutdown env io s =
     and_then (flush_last_log env s) (\<lambda>s1.
       if run s1 then thread_exit io (s1\<lparr>run := False\<rparr>) else ok (s1\<lparr>run := False\<rparr>))"

definition exit_handler :: "io_ops \<Rightarrow> logger \<Rightarrow> logger result" where
  "exit_handler io s = thread_exit io (s\<lparr>run := False\<rparr>)"

subsection \<open>A logger after initialisation\<close>

text \<open>
  \<open>memcached_extensions_initialize\<close> reads the configuration, allocates the two
  buffers and starts the background thread; \<open>lastlog\<close> and the buffer offsets are
  static storage and start as zeros. \<open>configured\<close> is the state it leaves for a given
  configuration (buffer size, cycle size, the two levels, the two flags), before the
  thread has opened its first file.
\<close>

definition configured :: "nat \<Rightarrow> nat \<Rightarrow> nat \<Rightarrow> nat \<Rightarrow> bool \<Rightarrow> bool \<Rightarrow> logger" where
  "configured bsz csz level out_level pretty test =
     \<lparr>current_log_level = level, output_level = out_level, cyclesz = csz,
      buffers = (\<lambda>i. \<lparr>data = Some (replicate bsz (CHR 0x00)), offset = 0\<rparr>),
      currbuffer = 0, prettyprint = pretty, unit_test = test, buffersz = bsz,
      lastlog = \<lparr>ll_buffer = replicate 512 (CHR 0x00), ll_count = 0, ll_offset = 0\<rparr>,
      run = True, stderr = [], fp = None, currsize = 0, next_id = 0,
      files = (\<lambda>name. None), closed = [], io_calls = 0\<rparr>"

text \<open>The bytes waiting in the active buffer.\<close>

definition pending :: "logger \<Rightarrow> string" where
  "pending s = (case data (cur s) of None \<Rightarrow> [] | Some d \<Rightarrow> take (offset (cur s)) d)"

definition observe :: "(logger \<Rightarrow> 'a) \<Rightarrow> logger result \<Rightarrow> 'a result" where
  "observe f r = and_then r (\<lambda>s. ok (f s))"

text \<open>
  The state \<open>do_add_log_entry\<close> leaves when it does not have to wait: \<open>msg\<close> copied
  at the offset of the active buffer, the offset advanced by its length.
\<close>

definition copied :: "string \<Rightarrow> logger \<Rightarrow> logger" where
  "copied msg s = s\<lparr>buffers := (buffers s)(currbuffer s :=
       \<lparr>data = map_option (\<lambda>d. memcpy_at d (offset (cur s)) msg) (data (cur s)),
        offset = offset (cur s) + length msg\<rparr>)\<rparr>"

text \<open>The line \<open>flush_last_log\<close> owes for the run so far: none unless the count exceeds 1.\<close>

definition pending_summary :: "logger \<Rightarrow> string" where
  "pending_summary s =
     (if 1 <s ll_count (lastlog s) then repeated_line (ll_count (lastlog s)) else [])"

text \<open>A sequence of calls of \<open>add_log_entry\<close>, each with its record and prefix length.\<close>

fun log_all ::
  "(logger \<Rightarrow> logger) \<Rightarrow> (string \<times> nat) list \<Rightarrow> logger \<Rightarrow> logger result" where
  "log_all env [] s = ok s"
| "log_all env (r # rs) s = and_then (add_log_entry env (fst r) (snd r) s) (log_all env rs)"

text \<open>
  What a theorem may ask of the write primitive. The contract: it never reports more
  bytes than it was asked for, and its result fits an \<open>int\<close>. Progress: after every
  call, some later call reports a positive count.
\<close>

definition honours_contract :: "(nat \<Rightarrow> nat \<Rightarrow> int) \<Rightarrow> bool" where
  "honours_contract wr = (\<forall>k n. wr k n \<le> int n \<and> - (2 ^ 31) \<le> wr k n \<and> wr k n < 2 ^ 31)"

definition makes_progress :: "(nat \<Rightarrow> nat \<Rightarrow> int) \<Rightarrow> bool" where
  "makes_progress wr = (\<forall>k n. 0 < n \<longrightarrow> (\<exists>j. k \<le> j \<and> 0 < wr j n))"

text \<open>
  Three devices: one whose every write fails with \<open>-1\<close>; one that fails, then writes
  nothing, then writes one byte, in turn; one that writes all it is asked to
  (as far as an \<open>int\<close> can tell).
\<close>

definition always_failing :: "nat \<Rightarrow> nat \<Rightarrow> int" where
  "always_failing k n = - 1"

definition stuttering :: "nat \<Rightarrow> nat \<Rightarrow> int" where
  "stuttering k n = (if k mod 3 = 0 then - 1 else if k mod 3 = 1 then 0 else min 1 (int n))"

definition failing_io :: io_ops where
  "failing_io = \<lparr>open_succeeds = (\<lambda>name. True), write_returns = always_failing\<rparr>"

definition stuttering_io :: io_ops where
  "stuttering_io = \<lparr>open_succeeds = (\<lambda>name. True), write_returns = stuttering\<rparr>"

definition writes_all :: "nat \<Rightarrow> nat \<Rightarrow> int" where
  "writes_all k n = min (int n) 2147483647"

definition reliable_io :: io_ops where
  "reliable_io = \<lparr>open_succeeds = (\<lambda>name. True), write_returns = writes_all\<rparr>"

text \<open>
  The capacity invariant: in every buffer the offset is at most \<open>buffersz\<close>, and the
  segment, while allocated, has exactly \<open>buffersz\<close> bytes.
\<close>

definition segment_ok :: "nat \<Rightarrow> logbuffer \<Rightarrow> bool" where
  "segment_ok n b = (offset b \<le> n \<and> (case data b of None \<Rightarrow> True | Some d \<Rightarrow> length d = n))"

definition within_capacity :: "logger \<Rightarrow> bool" where
  "within_capacity s = (\<forall>i. segment_ok (buffersz s) (buffers s i))"

text \<open>
  The state in which a caller of \<open>do_add_log_entry\<close> goes to wait, and the test that
  sends it there.
\<close>

definition waiting :: "logger \<Rightarrow> logger" where
  "waiting s = (if unit_test s then s else s\<lparr>stderr := stderr s @ space_warning\<rparr>)"

definition no_room :: "string \<Rightarrow> logger \<Rightarrow> bool" where
  "no_room msg s = (buffersz s \<le> offset (cur s) + length msg)"

text \<open>
  The numbering of the log files. \<open>first_free\<close>: \<open>k\<close> is the first number from
  \<open>next_id\<close> on whose file name is not taken, it is below \<open>2^31\<close> (where \<open>%d\<close> prints
  it as it is), the names tried on the way fit \<open>fname\<close>, and opening that file
  succeeds. \<open>writing_to\<close>: the background thread, between two rounds, has the file
  numbered \<open>j\<close> open; \<open>j\<close> has been given out (it is below \<open>next_id\<close>), and
  \<open>currsize\<close> is the number of bytes in that file, not above \<open>cyclesz\<close>.
\<close>

definition first_free :: "io_ops \<Rightarrow> string \<Rightarrow> 32 word \<Rightarrow> logger \<Rightarrow> bool" where
  "first_free io fnm k s =
     (next_id s \<le> k \<and> k < 2 ^ 31
      \<and> (\<forall>i. next_id s \<le> i \<and> i < k \<longrightarrow> files s (logfile_name fnm i) \<noteq> None)
      \<and> files s (logfile_name fnm k) = None
      \<and> (\<forall>i. next_id s \<le> i \<and> i \<le> k \<longrightarrow> length (logfile_name fnm i) < 1024)
      \<and> open_succeeds io (logfile_name fnm k))"

definition writing_to :: "string \<Rightarrow> 32 word \<Rightarrow> logger \<Rightarrow> bool" where
  "writing_to fnm j s =
     (fp s = Some (logfile_name fnm j) \<and> j < next_id s
      \<and> files s (logfile_name fnm j) \<noteq> None
      \<and> currsize s = length (contents s (logfile_name fnm j))
      \<and> currsize s \<le> cyclesz s)"

section \<open>Properties\<close>

declare dec.simps [simp del]

declare do_add_log_entry.simps [code]
declare write_loop.simps [code]
declare probe.simps [code]
declare drain.simps [code]

subsection \<open>Results\<close>

lemma and_then_ok [simp]: "and_then (ok x) k = k x"
  by (simp add: and_then_def ok_def)

lemma and_then_crash [simp]: "and_then (crash f) k = crash f"
  by (simp add: and_then_def crash_def)

lemma and_then_None [simp]: "and_then None k = None"
  by (simp add: and_then_def)

lemma result_distinct [simp]:
  "ok x \<noteq> crash f" "crash f \<noteq> ok x" "ok x \<noteq> None" "crash f \<noteq> None"
  "None \<noteq> ok x" "None \<noteq> crash f"
  "(ok x = ok y) = (x = y)" "(crash f = crash g) = (f = g)"
  by (simp_all add: ok_def crash_def)

lemma and_then_eq_ok:
  "and_then r k = ok y \<longleftrightarrow> (\<exists>x. r = ok x \<and> k x = ok y)"
  by (cases r) (auto simp: and_then_def ok_def split: sum.splits)

subsection \<open>Calls below both thresholds\<close>

text \<open>
  C10. A call whose severity is below the record threshold \<open>current_log_level\<close> and
  below \<open>output_level\<close> returns at once with the state it found: whatever the clock
  would have read and whatever the message is, standard error, both buffers and
  \<open>lastlog\<close> are untouched, and no wait takes place.
\<close>

theorem logger_log_below_both_levels:
  "severity < current_log_level s \<Longrightarrow> severity < output_level s \<Longrightarrow>
   logger_log env severity now msg s = ok s"
  by (simp add: logger_log_def)

theorem logger_log_below_both_levels_witness:
  "logger_log id EXTENSION_LOG_DEBUG (Clock ''Mon Jan  1 00:00:00.000000 UTC'') ''hello''
     (configured 64 1024 EXTENSION_LOG_WARNING EXTENSION_LOG_WARNING False True)
   = ok (configured 64 1024 EXTENSION_LOG_WARNING EXTENSION_LOG_WARNING False True)"
  using logger_log_below_both_levels
    [of EXTENSION_LOG_DEBUG
        "configured 64 1024 EXTENSION_LOG_WARNING EXTENSION_LOG_WARNING False True"
        id "Clock ''Mon Jan  1 00:00:00.000000 UTC''" "''hello''"]
  by (simp add: configured_def EXTENSION_LOG_DEBUG_def EXTENSION_LOG_WARNING_def)

subsection \<open>Appending without waiting\<close>

lemma do_add_room:
  assumes "offset (cur s) + length msg < buffersz s" and "data (cur s) = Some d"
  shows "do_add_log_entry env msg s = ok (copied msg s)"
  using assms by (subst do_add_log_entry.simps) (simp add: ok_def copied_def)

lemma copied_fields [simp]:
  "lastlog (copied msg s) = lastlog s" "stderr (copied msg s) = stderr s"
  "buffersz (copied msg s) = buffersz s" "currbuffer (copied msg s) = currbuffer s"
  "offset (cur (copied msg s)) = offset (cur s) + length msg"
  "data (cur (copied msg s)) = map_option (\<lambda>d. memcpy_at d (offset (cur s)) msg) (data (cur s))"
  "i \<noteq> currbuffer s \<Longrightarrow> buffers (copied msg s) i = buffers s i"
  by (simp_all add: copied_def cur_def)

lemma copied_Nil [simp]: "copied [] s = s"
proof -
  have "\<lparr>data = map_option (\<lambda>d. memcpy_at d (offset (cur s)) []) (data (cur s)),
         offset = offset (cur s) + length ([] :: string)\<rparr> = cur s"
    by (cases "data (cur s)") (simp_all add: memcpy_at_def)
  then have "(buffers s)(currbuffer s :=
       \<lparr>data = map_option (\<lambda>d. memcpy_at d (offset (cur s)) []) (data (cur s)),
        offset = offset (cur s) + length ([] :: string)\<rparr>) = buffers s"
    by (simp add: cur_def)
  then show ?thesis
    unfolding copied_def by simp
qed

lemma length_memcpy_at:
  "pos + length src \<le> length dst \<Longrightarrow> length (memcpy_at dst pos src) = length dst"
  by (simp add: memcpy_at_def)

lemma memcpy_at_covers:
  "pos \<le> length dst \<Longrightarrow> pos + length src \<le> length (memcpy_at dst pos src)"
  by (simp add: memcpy_at_def)

lemma pending_copied:
  assumes "data (cur s) = Some d" and "offset (cur s) \<le> length d"
  shows "pending (copied msg s) = pending s @ msg"
  using assms by (simp add: pending_def memcpy_at_def)

lemma sint_count: "k < 2 ^ 31 \<Longrightarrow> sint (of_nat k :: 32 word) = int k"
proof -
  assume a: "k < 2 ^ 31"
  have "sint (of_nat k :: 32 word) = signed_take_bit 31 (int k)"
    by (simp add: signed_of_nat)
  also have "\<dots> = int k"
    using a by (intro signed_take_bit_int_eq_self) auto
  finally show ?thesis .
qed

lemma count_sless: "k < 2 ^ 31 \<Longrightarrow> (1 <s (of_nat k :: 32 word)) = (1 < k)"
  by (simp add: word_sless_alt sint_count)

lemma flush_last_log_room:
  assumes "offset (cur s) + length (pending_summary s) < buffersz s" and "data (cur s) = Some d"
  shows "flush_last_log env s = ok (copied (pending_summary s) s)"
proof (cases "1 <s ll_count (lastlog s)")
  case True
  with assms show ?thesis
    by (simp add: flush_last_log_def pending_summary_def do_add_room)
next
  case False
  then show ?thesis
    by (simp add: flush_last_log_def pending_summary_def)
qed

lemma add_log_entry_new:
  assumes "length msg < 512"
    and "ll_offset (lastlog s) + (length msg - prefixlen) \<le> 512"
    and "\<not> memcmp_lastlog (lastlog s) msg prefixlen"
    and "data (cur s) = Some d"
    and "offset (cur s) + length (pending_summary s) + length msg < buffersz s"
  shows "add_log_entry env msg prefixlen s =
           ok ((copied msg (copied (pending_summary s) s))
                \<lparr>lastlog := \<lparr>ll_buffer = memcpy_at (ll_buffer (lastlog s)) 0 msg,
                              ll_count = 0, ll_offset = prefixlen\<rparr>\<rparr>)"
proof -
  have f: "flush_last_log env s = ok (copied (pending_summary s) s)"
    using assms(4,5) by (intro flush_last_log_room) auto
  have a: "do_add_log_entry env msg (copied (pending_summary s) s)
             = ok (copied msg (copied (pending_summary s) s))"
    using assms(4,5) by (intro do_add_room[where d="memcpy_at d (offset (cur s)) (pending_summary s)"]) auto
  show ?thesis
    using assms(1,2,3) by (simp add: add_log_entry_def f a)
qed

lemma add_log_entry_repeat:
  assumes "length msg < 512"
    and "ll_offset (lastlog s) + (length msg - prefixlen) \<le> 512"
    and "memcmp_lastlog (lastlog s) msg prefixlen"
  shows "add_log_entry env msg prefixlen s =
           ok (s\<lparr>lastlog := (lastlog s)\<lparr>ll_count := ll_count (lastlog s) + 1\<rparr>\<rparr>)"
  using assms by (simp add: add_log_entry_def)

lemma memcmp_same_body:
  assumes "ll_buffer ll = memcpy_at old 0 (p @ b)" and "ll_offset ll = length p"
  shows "memcmp_lastlog ll (q @ b) (length q)"
  using assms by (simp add: memcmp_lastlog_def memcpy_at_def)

lemma log_all_repeats:
  assumes "ll_buffer (lastlog s) = memcpy_at old 0 (p @ b)" and "ll_offset (lastlog s) = length p"
    and "length p + length b < 512"
    and "\<forall>q\<in>set qs. length q + length b < 512"
  shows "log_all env (map (\<lambda>q. (q @ b, length q)) qs) s =
           ok (s\<lparr>lastlog := (lastlog s)\<lparr>ll_count := ll_count (lastlog s) + of_nat (length qs)\<rparr>\<rparr>)"
  using assms
proof (induction qs arbitrary: s)
  case Nil
  then show ?case by simp
next
  case (Cons q qs)
  let ?s1 = "s\<lparr>lastlog := (lastlog s)\<lparr>ll_count := ll_count (lastlog s) + 1\<rparr>\<rparr>"
  have m: "memcmp_lastlog (lastlog s) (q @ b) (length q)"
    using Cons.prems(1,2) by (rule memcmp_same_body)
  have step: "add_log_entry env (q @ b) (length q) s = ok ?s1"
    using Cons.prems m by (intro add_log_entry_repeat) auto
  have "log_all env (map (\<lambda>q. (q @ b, length q)) qs) ?s1 =
          ok (?s1\<lparr>lastlog := (lastlog ?s1)\<lparr>ll_count := ll_count (lastlog ?s1) + of_nat (length qs)\<rparr>\<rparr>)"
    using Cons.prems by (intro Cons.IH) auto
  then show ?case
    by (simp add: step add.assoc add.commute)
qed

subsection \<open>What a call writes to standard error\<close>

lemma do_add_stderr_aux:
  assumes "do_add_log_entry env msg s = Some r"
  shows "(\<forall>t. stderr (env t) = stderr t) \<longrightarrow>
         (\<forall>s'. r = Inr s' \<longrightarrow> (\<exists>k. stderr s' = stderr s @ concat (replicate k space_warning)))"
proof (rule do_add_log_entry.raw_induct
    [where P = "\<lambda>env msg s r. (\<forall>t. stderr (env t) = stderr t) \<longrightarrow>
         (\<forall>s'. r = Inr s' \<longrightarrow> (\<exists>k. stderr s' = stderr s @ concat (replicate k space_warning)))",
     OF _ assms])
  fix f :: "(logger \<Rightarrow> logger) \<Rightarrow> string \<Rightarrow> logger \<Rightarrow> logger result"
    and env msg s r
  assume IH: "\<And>env msg s r. f env msg s = Some r \<Longrightarrow>
      (\<forall>t. stderr (env t) = stderr t) \<longrightarrow>
         (\<forall>s'. r = Inr s' \<longrightarrow> (\<exists>k. stderr s' = stderr s @ concat (replicate k space_warning)))"
    and body: "(if buffersz s \<le> offset (cur s) + length msg
      then f env msg
             (env (if unit_test s then s else s\<lparr>stderr := stderr s @ space_warning\<rparr>))
      else (case data (cur s) of
              None \<Rightarrow> Some (Inl Use_after_free)
            | Some d \<Rightarrow>
                Some (Inr (s\<lparr>buffers := (buffers s)(currbuffer s :=
                       \<lparr>data = Some (memcpy_at d (offset (cur s)) msg),
                        offset = offset (cur s) + length msg\<rparr>)\<rparr>)))) = Some r"
  show "(\<forall>t. stderr (env t) = stderr t) \<longrightarrow>
         (\<forall>s'. r = Inr s' \<longrightarrow> (\<exists>k. stderr s' = stderr s @ concat (replicate k space_warning)))"
  proof (cases "buffersz s \<le> offset (cur s) + length msg")
    case True
    let ?t = "env (if unit_test s then s else s\<lparr>stderr := stderr s @ space_warning\<rparr>)"
    from body True have call: "f env msg ?t = Some r" by simp
    show ?thesis
    proof (intro impI allI)
      fix s' assume e: "\<forall>t. stderr (env t) = stderr t" and r: "r = Inr s'"
      from IH[OF call] e r obtain k where k: "stderr s' = stderr ?t @ concat (replicate k space_warning)"
        by blast
      show "\<exists>k. stderr s' = stderr s @ concat (replicate k space_warning)"
      proof (cases "unit_test s")
        case True
        with k e show ?thesis by auto
      next
        case False
        with k e have "stderr s' = stderr s @ concat (replicate (Suc k) space_warning)"
          by simp
        then show ?thesis by blast
      qed
    qed
  next
    case False
    show ?thesis
    proof (intro impI allI)
      fix s' assume r: "r = Inr s'"
      from body False r have "stderr s' = stderr s"
        by (auto split: option.splits)
      then have "stderr s' = stderr s @ concat (replicate 0 space_warning)" by simp
      then show "\<exists>k. stderr s' = stderr s @ concat (replicate k space_warning)" by blast
    qed
  qed
qed

lemma do_add_stderr:
  assumes "\<forall>t. stderr (env t) = stderr t" and "do_add_log_entry env msg s = ok s'"
  shows "\<exists>k. stderr s' = stderr s @ concat (replicate k space_warning)"
  using do_add_stderr_aux[of env msg s "Inr s'"] assms by (simp add: ok_def)

lemma flush_last_log_stderr:
  assumes "\<forall>t. stderr (env t) = stderr t" and "flush_last_log env s = ok s'"
  shows "\<exists>k. stderr s' = stderr s @ concat (replicate k space_warning)"
proof (cases "1 <s ll_count (lastlog s)")
  case True
  with assms show ?thesis by (auto simp: flush_last_log_def intro: do_add_stderr)
next
  case False
  with assms(2) have "stderr s' = stderr s @ concat (replicate 0 space_warning)"
    by (simp add: flush_last_log_def)
  then show ?thesis by blast
qed

lemma warnings_add:
  assumes "a = b @ concat (replicate k space_warning)"
    and "c = a @ concat (replicate j space_warning)"
  shows "\<exists>n. c = b @ concat (replicate n space_warning)"
proof -
  from assms have "c = b @ concat (replicate (k + j) space_warning)"
    by (simp add: replicate_add)
  then show ?thesis by blast
qed

lemma add_log_entry_stderr:
  assumes env: "\<forall>t. stderr (env t) = stderr t" and r: "add_log_entry env msg prefixlen s = ok s'"
  shows "\<exists>k. stderr s' = stderr s @ concat (replicate k space_warning)"
proof (cases "length msg < 512")
  case small: True
  show ?thesis
  proof (cases "memcmp_lastlog (lastlog s) msg prefixlen")
    case True
    with small r have "stderr s' = stderr s @ concat (replicate 0 space_warning)"
      by (auto simp: add_log_entry_def split: if_splits)
    then show ?thesis by blast
  next
    case False
    with small r obtain s1 s2 where f: "flush_last_log env s = ok s1"
      and a: "do_add_log_entry env msg s1 = ok s2" and e: "stderr s' = stderr s2"
      by (auto simp: add_log_entry_def and_then_eq_ok split: if_splits)
    from flush_last_log_stderr[OF env f] obtain k where k: "stderr s1 = stderr s @ concat (replicate k space_warning)" ..
    from do_add_stderr[OF env a] obtain j where j: "stderr s2 = stderr s1 @ concat (replicate j space_warning)" ..
    from warnings_add[OF k j] e show ?thesis by simp
  qed
next
  case False
  with r obtain s1 where f: "flush_last_log env s = ok s1"
    and a: "do_add_log_entry env msg
             (s1\<lparr>lastlog := \<lparr>ll_buffer = (ll_buffer (lastlog s1))[0 := CHR 0x00],
                              ll_count = 0, ll_offset = 0\<rparr>\<rparr>) = ok s'"
    by (auto simp: add_log_entry_def and_then_eq_ok)
  from flush_last_log_stderr[OF env f] obtain k where k: "stderr s1 = stderr s @ concat (replicate k space_warning)" ..
  from do_add_stderr[OF env a] obtain j where j: "stderr s' = stderr s1 @ concat (replicate j space_warning)"
    by auto
  from warnings_add[OF k j] show ?thesis .
qed

lemma add_log_entry_big:
  assumes "\<not> length msg < 512"
    and "data (cur s) = Some d"
    and "offset (cur s) + length (pending_summary s) + length msg < buffersz s"
  shows "add_log_entry env msg prefixlen s =
           ok (copied msg ((copied (pending_summary s) s)
                \<lparr>lastlog := \<lparr>ll_buffer = (ll_buffer (lastlog s))[0 := CHR 0x00],
                              ll_count = 0, ll_offset = 0\<rparr>\<rparr>))"
proof -
  let ?s1 = "(copied (pending_summary s) s)
                \<lparr>lastlog := \<lparr>ll_buffer = (ll_buffer (lastlog s))[0 := CHR 0x00],
                              ll_count = 0, ll_offset = 0\<rparr>\<rparr>"
  have f: "flush_last_log env s = ok (copied (pending_summary s) s)"
    using assms(2,3) by (intro flush_last_log_room) auto
  have c: "cur ?s1 = cur (copied (pending_summary s) s)" by (simp add: cur_def)
  have a: "do_add_log_entry env msg ?s1 = ok (copied msg ?s1)"
    using assms(2,3) by (intro do_add_room[where d="memcpy_at d (offset (cur s)) (pending_summary s)"]) (simp_all add: c)
  show ?thesis
    using assms(1) by (simp add: add_log_entry_def f a)
qed

subsection \<open>The formatter\<close>

lemma severity_text_nonempty: "severity_text p sev \<noteq> []"
  by (simp add: severity_text_def)

lemma terminate_line_alt:
  "t \<noteq> [] \<Longrightarrow> terminate_line t = (if last t = nl then t else t @ [nl])"
  by (simp add: terminate_line_def last_conv_nth)

lemma length_terminate_line: "length (terminate_line t) \<le> length t + 1"
  by (simp add: terminate_line_def)

lemma logger_log_fits:
  assumes "current_log_level s \<le> severity \<or> output_level s \<le> severity"
    and "length (stamp @ severity_text (prettyprint s) severity) + length msg < 2047"
  shows "logger_log env severity (Clock stamp) msg s =
     (if current_log_level s \<le> severity
      then add_log_entry env (terminate_line (stamp @ severity_text (prettyprint s) severity @ msg))
             (length (stamp @ severity_text (prettyprint s) severity))
             (if output_level s \<le> severity
              then s\<lparr>stderr := stderr s @ c_string (terminate_line (stamp @ severity_text (prettyprint s) severity @ msg))\<rparr>
              else s)
      else ok (if output_level s \<le> severity
              then s\<lparr>stderr := stderr s @ c_string (terminate_line (stamp @ severity_text (prettyprint s) severity @ msg))\<rparr>
              else s))"
proof -
  let ?prefix = "stamp @ severity_text (prettyprint s) severity"
  from assms(2) have a: "\<not> 2047 < length ?prefix" and b: "length msg < 2047 - length ?prefix"
    by arith+
  show ?thesis
    using assms(1) a b unfolding logger_log_def Let_def by simp
qed

lemma logger_log_too_big:
  assumes "current_log_level s \<le> severity \<or> output_level s \<le> severity"
    and "length (stamp @ severity_text (prettyprint s) severity) \<le> 2047"
    and "2047 \<le> length (stamp @ severity_text (prettyprint s) severity) + length msg"
  shows "logger_log env severity (Clock stamp) msg s = ok (s\<lparr>stderr := stderr s @ dropped_line\<rparr>)"
  using assms by (auto simp add: logger_log_def Let_def)

lemma add_log_entry_appends:
  assumes "data (cur s) = Some d" and "offset (cur s) \<le> length d"
    and "offset (cur s) + length (pending_summary s) + length msg < buffersz s"
    and "length msg < 512 \<longrightarrow>
           ll_offset (lastlog s) + (length msg - prefixlen) \<le> 512
           \<and> \<not> memcmp_lastlog (lastlog s) msg prefixlen"
  shows "\<exists>s'. add_log_entry env msg prefixlen s = ok s'
              \<and> pending s' = pending s @ pending_summary s @ msg
              \<and> stderr s' = stderr s"
proof -
  let ?a = "copied (pending_summary s) s"
  have pa: "pending ?a = pending s @ pending_summary s"
    using assms(1,2) by (rule pending_copied)
  have la: "offset (cur s) + length (pending_summary s)
              \<le> length (memcpy_at d (offset (cur s)) (pending_summary s))"
    using assms(2) by (rule memcpy_at_covers)
  show ?thesis
  proof (cases "length msg < 512")
    case True
    let ?s' = "(copied msg ?a)\<lparr>lastlog := \<lparr>ll_buffer = memcpy_at (ll_buffer (lastlog s)) 0 msg,
                              ll_count = 0, ll_offset = prefixlen\<rparr>\<rparr>"
    have r: "add_log_entry env msg prefixlen s = ok ?s'"
      using True assms by (intro add_log_entry_new) auto
    have c: "cur ?s' = cur (copied msg ?a)" by (simp add: cur_def)
    have "pending (copied msg ?a) = pending ?a @ msg"
      using assms(1) la by (intro pending_copied) auto
    then have "pending ?s' = pending s @ pending_summary s @ msg"
      unfolding pending_def c using pa by (simp add: pending_def)
    then show ?thesis using r by (intro exI[of _ ?s']) simp
  next
    case False
    let ?s1 = "?a\<lparr>lastlog := \<lparr>ll_buffer = (ll_buffer (lastlog s))[0 := CHR 0x00],
                              ll_count = 0, ll_offset = 0\<rparr>\<rparr>"
    have r: "add_log_entry env msg prefixlen s = ok (copied msg ?s1)"
      using False assms by (intro add_log_entry_big) auto
    have c: "cur ?s1 = cur ?a" by (simp add: cur_def)
    have p1: "pending ?s1 = pending ?a" unfolding pending_def c ..
    have "pending (copied msg ?s1) = pending ?s1 @ msg"
      using assms(1) la by (intro pending_copied) (simp_all add: c)
    with p1 pa have "pending (copied msg ?s1) = pending s @ pending_summary s @ msg" by simp
    then show ?thesis using r by (intro exI[of _ "copied msg ?s1"]) simp
  qed
qed

text \<open>
  C9, as amended. A call at or above the record threshold whose prefix and message fit
  the scratch buffer hands \<open>add_log_entry\<close> the prefix and the message, with one
  newline appended exactly when the text does not end in one. So every record ends in
  a newline; the code removes none, and a message that ends in several newlines, or
  has newlines inside, keeps them. When the record is not a repeat of the stored
  message and the active buffer has room, the buffer gains the pending summary (if
  any) and then exactly this record.
\<close>

theorem formatted_record_ends_in_newline:
  assumes "current_log_level s \<le> severity"
    and "prefix = stamp @ severity_text (prettyprint s) severity"
    and "length prefix + length msg < 2047"
    and "record = (if last (prefix @ msg) = nl then prefix @ msg else prefix @ msg @ [nl])"
  shows "last record = nl
     \<and> logger_log env severity (Clock stamp) msg s =
          add_log_entry env record (length prefix)
            (if output_level s \<le> severity
             then s\<lparr>stderr := stderr s @ c_string record\<rparr> else s)
     \<and> (data (cur s) = Some d \<and> offset (cur s) \<le> length d
        \<and> offset (cur s) + length (pending_summary s) + length record < buffersz s
        \<and> (length record < 512 \<longrightarrow>
              ll_offset (lastlog s) + (length record - length prefix) \<le> 512
              \<and> \<not> memcmp_lastlog (lastlog s) record (length prefix))
        \<longrightarrow> (\<exists>s'. logger_log env severity (Clock stamp) msg s = ok s'
                   \<and> pending s' = pending s @ pending_summary s @ record))"
proof -
  have ne: "prefix @ msg \<noteq> []" using assms(2) by (simp add: severity_text_nonempty)
  have rec: "record = terminate_line (prefix @ msg)"
    using assms(4) terminate_line_alt[OF ne] by simp
  have l: "last record = nl" using assms(4) by simp
  let ?s1 = "if output_level s \<le> severity
             then s\<lparr>stderr := stderr s @ c_string record\<rparr> else s"
  have eq: "logger_log env severity (Clock stamp) msg s = add_log_entry env record (length prefix) ?s1"
    using assms(1,2,3) rec by (simp add: logger_log_fits)
  have c1: "cur ?s1 = cur s" by (simp add: cur_def)
  have c2: "lastlog ?s1 = lastlog s" by simp
  have c3: "pending ?s1 = pending s" unfolding pending_def c1 ..
  have c4: "pending_summary ?s1 = pending_summary s" unfolding pending_summary_def c2 ..
  have c5: "buffersz ?s1 = buffersz s" by simp
  note c = c1 c2 c3 c4 c5
  have app: "\<exists>s'. logger_log env severity (Clock stamp) msg s = ok s'
                   \<and> pending s' = pending s @ pending_summary s @ record"
    if h: "data (cur s) = Some d \<and> offset (cur s) \<le> length d
        \<and> offset (cur s) + length (pending_summary s) + length record < buffersz s
        \<and> (length record < 512 \<longrightarrow>
              ll_offset (lastlog s) + (length record - length prefix) \<le> 512
              \<and> \<not> memcmp_lastlog (lastlog s) record (length prefix))"
  proof -
    have "\<exists>s'. add_log_entry env record (length prefix) ?s1 = ok s'
              \<and> pending s' = pending ?s1 @ pending_summary ?s1 @ record
              \<and> stderr s' = stderr ?s1"
      using h by (intro add_log_entry_appends[where d = d]) (simp_all only: c, simp_all)
    then show ?thesis unfolding eq c by blast
  qed
  from l eq app show ?thesis by blast
qed

theorem formatted_record_ends_in_newline_witness:
  "observe pending (logger_log id 3 (Clock ''T'') ''hi'' (configured 64 1024 3 3 False True))
     = ok (''T 3: hi'' @ [nl])"
proof -
  let ?s = "configured 64 1024 3 3 False True"
  let ?rcd = "''T 3: hi'' @ [nl]"
  have h1: "current_log_level ?s \<le> 3" by (simp add: configured_def)
  have h2: "''T 3: '' = ''T'' @ severity_text (prettyprint ?s) 3" by code_simp
  have h3: "length ''T 3: '' + length ''hi'' < 2047" by simp
  have h4: "?rcd = (if last (''T 3: '' @ ''hi'') = nl then ''T 3: '' @ ''hi''
                        else ''T 3: '' @ ''hi'' @ [nl])" by code_simp
  have h5: "data (cur ?s) = Some (replicate 64 (CHR 0x00)) \<and> offset (cur ?s) \<le> length (replicate 64 (CHR 0x00))
        \<and> offset (cur ?s) + length (pending_summary ?s) + length ?rcd < buffersz ?s
        \<and> (length ?rcd < 512 \<longrightarrow>
              ll_offset (lastlog ?s) + (length ?rcd - length ''T 3: '') \<le> 512
              \<and> \<not> memcmp_lastlog (lastlog ?s) ?rcd (length ''T 3: ''))"
    by code_simp
  from formatted_record_ends_in_newline [OF h1 h2 h3 h4, of id "replicate 64 (CHR 0x00)"] h5
  obtain s' where r: "logger_log id 3 (Clock ''T'') ''hi'' ?s = ok s'"
    and p: "pending s' = pending ?s @ pending_summary ?s @ ?rcd"
    by blast
  have v: "pending ?s @ pending_summary ?s @ ?rcd = ?rcd" by code_simp
  show ?thesis unfolding observe_def r using p v by simp
qed

text \<open>
  The claim as stated allows one trailing newline only. A message that ends in two
  newlines gives a record that ends in two newlines.
\<close>

theorem record_two_newlines_counterexample:
  "observe pending (logger_log id 3 (Clock ''T'') (''x'' @ [nl, nl])
     (configured 64 1024 3 3 False True))
   = ok (''T 3: x'' @ [nl, nl])"
  by code_simp

subsection \<open>Records that are too long\<close>

text \<open>
  C6, as amended. For a call whose severity reaches the record threshold or the output
  threshold and whose clock reading succeeded (with a prefix that itself fits the
  scratch buffer): when the rendered record, newline included, would be longer than
  2048 bytes, the call leaves both buffers and \<open>lastlog\<close> as they were and adds the
  line \<open>Log message dropped... too big\<close> to standard error, nothing else.
\<close>

theorem oversize_record_dropped:
  assumes "current_log_level s \<le> severity \<or> output_level s \<le> severity"
    and "length (stamp @ severity_text (prettyprint s) severity) \<le> 2047"
    and "2048 < length (terminate_line (stamp @ severity_text (prettyprint s) severity @ msg))"
  shows "logger_log env severity (Clock stamp) msg s = ok (s\<lparr>stderr := stderr s @ dropped_line\<rparr>)"
proof -
  have "length (terminate_line (stamp @ severity_text (prettyprint s) severity @ msg))
        \<le> length (stamp @ severity_text (prettyprint s) severity @ msg) + 1"
    by (rule length_terminate_line)
  with assms(3) have "2047 \<le> length (stamp @ severity_text (prettyprint s) severity) + length msg"
    by simp
  with assms(1,2) show ?thesis by (rule logger_log_too_big)
qed

theorem oversize_record_dropped_witness:
  "logger_log id EXTENSION_LOG_WARNING (Clock ''T'') (replicate 2100 (CHR ''x''))
     (configured 64 1024 EXTENSION_LOG_WARNING EXTENSION_LOG_WARNING False True)
   = ok ((configured 64 1024 EXTENSION_LOG_WARNING EXTENSION_LOG_WARNING False True)
           \<lparr>stderr := dropped_line\<rparr>)"
  using oversize_record_dropped
    [of "configured 64 1024 EXTENSION_LOG_WARNING EXTENSION_LOG_WARNING False True"
        EXTENSION_LOG_WARNING "''T''" "replicate 2100 (CHR ''x'')" id]
  by (simp add: configured_def EXTENSION_LOG_WARNING_def severity_text_def terminate_line_def
      dec.simps digit_def)

text \<open>
  The claim as stated covers every call. A call below both thresholds returns before
  anything is formatted, so for an oversize message at such a severity no diagnostic
  reaches standard error.
\<close>

theorem oversize_below_levels_counterexample:
  "2048 < length (terminate_line (''T'' @ severity_text False EXTENSION_LOG_DEBUG @ replicate 2100 (CHR ''x'')))
   \<and> observe stderr (logger_log id EXTENSION_LOG_DEBUG (Clock ''T'') (replicate 2100 (CHR ''x''))
     (configured 64 1024 EXTENSION_LOG_WARNING EXTENSION_LOG_WARNING False True)) = ok []"
  by (simp add: logger_log_def configured_def EXTENSION_LOG_WARNING_def EXTENSION_LOG_DEBUG_def
       observe_def terminate_line_def)

subsection \<open>The mirror on standard error\<close>

lemma c_string_terminate_line:
  assumes "CHR 0x00 \<notin> set t"
  shows "c_string (terminate_line t) = terminate_line t"
proof -
  have "CHR 0x00 \<notin> set (terminate_line t)"
    using assms by (simp add: terminate_line_def nl_def)
  then show ?thesis
    unfolding c_string_def by auto
qed

text \<open>
  C8, as amended. A call with a severity at or above \<open>output_level\<close>, a successful
  clock reading, and a prefix and message that pass the size check of the formatter
  (together below 2047 bytes) and hold no NUL byte writes the formatted record to
  standard error, once:
  \<^item> the record is on standard error before \<open>add_log_entry\<close> is entered, whatever
    happens there;
  \<^item> below the record threshold the record is written and nothing else happens;
  \<^item> when \<open>add_log_entry\<close> counts the record as a repeat, the record is written all
    the same, the count goes up and the buffers stay as they are;
  \<^item> whenever the call returns, standard error has gained the record, followed only by
    the warnings of the waits for buffer space (the other threads writing nothing
    there meanwhile).
\<close>

theorem record_mirrored_on_stderr:
  assumes "output_level s \<le> severity"
    and "prefix = stamp @ severity_text (prettyprint s) severity"
    and "length prefix + length msg < 2047"
    and "CHR 0x00 \<notin> set (prefix @ msg)"
    and "record = terminate_line (prefix @ msg)"
  shows "logger_log env severity (Clock stamp) msg s =
           (if current_log_level s \<le> severity
            then add_log_entry env record (length prefix) (s\<lparr>stderr := stderr s @ record\<rparr>)
            else ok (s\<lparr>stderr := stderr s @ record\<rparr>))
     \<and> (severity < current_log_level s \<longrightarrow>
            logger_log env severity (Clock stamp) msg s = ok (s\<lparr>stderr := stderr s @ record\<rparr>))
     \<and> (current_log_level s \<le> severity \<and> length record < 512
          \<and> ll_offset (lastlog s) + (length record - length prefix) \<le> 512
          \<and> memcmp_lastlog (lastlog s) record (length prefix) \<longrightarrow>
            logger_log env severity (Clock stamp) msg s =
              ok (s\<lparr>stderr := stderr s @ record,
                     lastlog := (lastlog s)\<lparr>ll_count := ll_count (lastlog s) + 1\<rparr>\<rparr>))
     \<and> ((\<forall>t. stderr (env t) = stderr t) \<longrightarrow>
          (\<forall>s'. logger_log env severity (Clock stamp) msg s = ok s' \<longrightarrow>
             (\<exists>k. stderr s' = stderr s @ record @ concat (replicate k space_warning))))"
proof (intro conjI impI allI)
  have fits: "logger_log env severity (Clock stamp) msg s =
     (if current_log_level s \<le> severity
      then add_log_entry env record (length prefix) (s\<lparr>stderr := stderr s @ record\<rparr>)
      else ok (s\<lparr>stderr := stderr s @ record\<rparr>))"
    using assms c_string_terminate_line[of "prefix @ msg"] by (simp add: logger_log_fits)
  show "logger_log env severity (Clock stamp) msg s =
     (if current_log_level s \<le> severity
      then add_log_entry env record (length prefix) (s\<lparr>stderr := stderr s @ record\<rparr>)
      else ok (s\<lparr>stderr := stderr s @ record\<rparr>))"
    by (rule fits)
  {
    assume "severity < current_log_level s"
    then show "logger_log env severity (Clock stamp) msg s = ok (s\<lparr>stderr := stderr s @ record\<rparr>)"
      by (simp add: fits)
  }
  {
    assume a: "current_log_level s \<le> severity \<and> length record < 512
          \<and> ll_offset (lastlog s) + (length record - length prefix) \<le> 512
          \<and> memcmp_lastlog (lastlog s) record (length prefix)"
    then have "add_log_entry env record (length prefix) (s\<lparr>stderr := stderr s @ record\<rparr>)
       = ok ((s\<lparr>stderr := stderr s @ record\<rparr>)\<lparr>lastlog :=
               (lastlog (s\<lparr>stderr := stderr s @ record\<rparr>))\<lparr>ll_count :=
                  ll_count (lastlog (s\<lparr>stderr := stderr s @ record\<rparr>)) + 1\<rparr>\<rparr>)"
      by (intro add_log_entry_repeat) auto
    with a show "logger_log env severity (Clock stamp) msg s =
              ok (s\<lparr>stderr := stderr s @ record,
                     lastlog := (lastlog s)\<lparr>ll_count := ll_count (lastlog s) + 1\<rparr>\<rparr>)"
      by (simp add: fits)
  }
  {
    fix s'
    assume env: "\<forall>t. stderr (env t) = stderr t"
      and r: "logger_log env severity (Clock stamp) msg s = ok s'"
    show "\<exists>k. stderr s' = stderr s @ record @ concat (replicate k space_warning)"
    proof (cases "current_log_level s \<le> severity")
      case True
      with r fits have "add_log_entry env record (length prefix) (s\<lparr>stderr := stderr s @ record\<rparr>) = ok s'"
        by simp
      from add_log_entry_stderr[OF env this] show ?thesis by simp
    next
      case False
      with r fits have "stderr s' = stderr s @ record @ concat (replicate 0 space_warning)"
        by auto
      then show ?thesis by blast
    qed
  }
qed

theorem record_mirrored_on_stderr_witness:
  "logger_log id 2 (Clock ''T'') ''hi'' (configured 64 1024 3 2 False True)
     = ok ((configured 64 1024 3 2 False True)\<lparr>stderr := ''T 2: hi'' @ [nl]\<rparr>)
   \<and> logger_log id 3 (Clock ''U'') ''hi''
       ((configured 64 1024 3 3 False True)
          \<lparr>lastlog := \<lparr>ll_buffer = ''T 3: hi'' @ [nl] @ replicate 504 (CHR 0x00),
                        ll_count = 0, ll_offset = 5\<rparr>\<rparr>)
     = ok ((configured 64 1024 3 3 False True)
          \<lparr>lastlog := \<lparr>ll_buffer = ''T 3: hi'' @ [nl] @ replicate 504 (CHR 0x00),
                        ll_count = 1, ll_offset = 5\<rparr>,
           stderr := ''U 3: hi'' @ [nl]\<rparr>)"
proof
  let ?s = "configured 64 1024 3 2 False True"
  have h1: "output_level ?s \<le> 2" by (simp add: configured_def)
  have h2: "''T 2: '' = ''T'' @ severity_text (prettyprint ?s) 2" by code_simp
  have h3: "length ''T 2: '' + length ''hi'' < 2047" by simp
  have h0: "CHR 0x00 \<notin> set (''T 2: '' @ ''hi'')" by simp
  have h4: "''T 2: hi'' @ [nl] = terminate_line (''T 2: '' @ ''hi'')" by code_simp
  have h5: "2 < current_log_level ?s" by (simp add: configured_def)
  from record_mirrored_on_stderr [OF h1 h2 h3 h0 h4, of id] h5
  have "logger_log id 2 (Clock ''T'') ''hi'' ?s = ok (?s\<lparr>stderr := stderr ?s @ ''T 2: hi'' @ [nl]\<rparr>)"
    by blast
  then show "logger_log id 2 (Clock ''T'') ''hi'' ?s = ok (?s\<lparr>stderr := ''T 2: hi'' @ [nl]\<rparr>)"
    by (simp add: configured_def)
next
  let ?ll = "\<lparr>ll_buffer = ''T 3: hi'' @ [nl] @ replicate 504 (CHR 0x00),
                        ll_count = 0 :: 32 word, ll_offset = 5\<rparr>"
  let ?s = "(configured 64 1024 3 3 False True)\<lparr>lastlog := ?ll\<rparr>"
  let ?rcd = "''U 3: hi'' @ [nl]"
  have h1: "output_level ?s \<le> 3" by (simp add: configured_def)
  have h2: "''U 3: '' = ''U'' @ severity_text (prettyprint ?s) 3" by code_simp
  have h3: "length ''U 3: '' + length ''hi'' < 2047" by simp
  have h0: "CHR 0x00 \<notin> set (''U 3: '' @ ''hi'')" by simp
  have h4: "?rcd = terminate_line (''U 3: '' @ ''hi'')" by code_simp
  have h5: "current_log_level ?s \<le> 3 \<and> length ?rcd < 512
          \<and> ll_offset (lastlog ?s) + (length ?rcd - length ''U 3: '') \<le> 512
          \<and> memcmp_lastlog (lastlog ?s) ?rcd (length ''U 3: '')"
    by code_simp
  from record_mirrored_on_stderr [OF h1 h2 h3 h0 h4, of id] h5
  have "logger_log id 3 (Clock ''U'') ''hi'' ?s =
              ok (?s\<lparr>stderr := stderr ?s @ ?rcd,
                     lastlog := (lastlog ?s)\<lparr>ll_count := ll_count (lastlog ?s) + 1\<rparr>\<rparr>)"
    by blast
  then show "logger_log id 3 (Clock ''U'') ''hi'' ?s
     = ok ((configured 64 1024 3 3 False True)
          \<lparr>lastlog := \<lparr>ll_buffer = ''T 3: hi'' @ [nl] @ replicate 504 (CHR 0x00),
                        ll_count = 1, ll_offset = 5\<rparr>,
           stderr := ''U 3: hi'' @ [nl]\<rparr>)"
    by (simp add: configured_def)
qed

text \<open>
  The claim as stated covers every record that fits the maximum line size of 2048
  bytes. The formatter keeps room for a newline and the terminator whether or not they
  are needed: a record of 2047 bytes that brings its own newline is dropped, and
  standard error gets the diagnostic in place of the record.
\<close>

theorem record_at_the_limit_counterexample:
  "length (terminate_line (''T 3: '' @ replicate 2041 (CHR ''x'') @ [nl])) = 2047
   \<and> observe stderr
       (logger_log id 3 (Clock ''T'') (replicate 2041 (CHR ''x'') @ [nl])
          (configured 64 1024 3 3 False True))
     = ok dropped_line"
proof -
  have n: "''T 3: '' @ replicate 2041 (CHR ''x'') @ [nl] \<noteq> []" by simp
  have a: "length (terminate_line (''T 3: '' @ replicate 2041 (CHR ''x'') @ [nl])) = 2047"
    unfolding terminate_line_alt[OF n] by simp
  have p: "severity_text False 3 = '' 3: ''"
    by code_simp
  have "logger_log id 3 (Clock ''T'') (replicate 2041 (CHR ''x'') @ [nl])
          (configured 64 1024 3 3 False True)
        = ok ((configured 64 1024 3 3 False True)
               \<lparr>stderr := stderr (configured 64 1024 3 3 False True) @ dropped_line\<rparr>)"
    by (rule logger_log_too_big) (simp_all add: configured_def p)
  then show ?thesis
    using a by (simp add: observe_def configured_def)
qed

subsection \<open>What counts as a repeat\<close>

text \<open>
  C7. \<open>memcmp\<close> compares as many bytes as the body of the new record has, and
  \<open>lastlog\<close> does not keep the length of the stored message. A record whose body is a
  proper prefix of the stored body is therefore counted as a repeat: after the message
  of the two lines \<open>x\<close> and \<open>y\<close>, the different message of the one line \<open>x\<close>
  (with a prefix of the same length) raises the count to 1 and is not appended.
\<close>

theorem prefix_of_last_message_counted_as_repeat:
  "observe pending
     (and_then (logger_log id 3 (Clock ''T'') (''x'' @ [nl] @ ''y'' @ [nl])
                  (configured 64 1024 3 3 False True))
        (logger_log id 3 (Clock ''T'') (''x'' @ [nl])))
   = ok (''T 3: x'' @ [nl] @ ''y'' @ [nl])
   \<and> observe (ll_count \<circ> lastlog)
     (and_then (logger_log id 3 (Clock ''T'') (''x'' @ [nl] @ ''y'' @ [nl])
                  (configured 64 1024 3 3 False True))
        (logger_log id 3 (Clock ''T'') (''x'' @ [nl])))
   = ok 1"
  by code_simp

subsection \<open>The write loop\<close>

lemma c_int_id: "- (2 ^ 31) \<le> r \<Longrightarrow> r < 2 ^ 31 \<Longrightarrow> c_int r = r"
  unfolding c_int_def by (simp add: sint_sbintrunc' signed_take_bit_int_eq_self)

lemma write_loop_done: "write_loop wr ptr 0 out k = Some (out, k)"
  by (subst write_loop.simps) simp

lemma write_loop_retry:
  assumes "0 < n" and "wr k n \<le> 0" and "- (2 ^ 31) \<le> wr k n"
  shows "write_loop wr ptr n out k = write_loop wr ptr n out (k + 1)"
proof -
  have "c_int (wr k n) = wr k n" using assms by (intro c_int_id) auto
  then show ?thesis using assms by (subst write_loop.simps) simp
qed

lemma write_loop_advance:
  assumes "0 < n" and "0 < wr k n" and "wr k n < 2 ^ 31" and "wr k n \<le> int n"
  shows "write_loop wr ptr n out k =
           write_loop wr (drop (nat (wr k n)) ptr) (n - nat (wr k n))
             (out @ take (nat (wr k n)) ptr) (k + 1)"
proof -
  have "c_int (wr k n) = wr k n" using assms by (intro c_int_id) auto
  then show ?thesis using assms by (subst write_loop.simps) (simp add: size_t_minus_def)
qed

lemma write_loop_skip:
  assumes c: "honours_contract wr" and n: "0 < n" and j: "k \<le> j" "0 < wr j n"
  shows "\<exists>j'. k \<le> j' \<and> 0 < wr j' n \<and> write_loop wr ptr n out k = write_loop wr ptr n out j'"
  using j
proof (induction "j - k" arbitrary: k)
  case 0
  then have "k = j" by simp
  with 0 show ?case by blast
next
  case (Suc d)
  show ?case
  proof (cases "0 < wr k n")
    case True
    then show ?thesis by blast
  next
    case False
    from c have "- (2 ^ 31) \<le> wr k n" by (simp add: honours_contract_def)
    with False n have step: "write_loop wr ptr n out k = write_loop wr ptr n out (k + 1)"
      by (intro write_loop_retry) auto
    from Suc.hyps(2) False Suc.prems have "d = j - (k + 1)" "k + 1 \<le> j"
      by (auto simp: le_less Suc_le_eq intro: ccontr)
    from Suc.hyps(1)[OF this Suc.prems(2)] obtain j' where
      "k + 1 \<le> j'" "0 < wr j' n" "write_loop wr ptr n out (k + 1) = write_loop wr ptr n out j'"
      by blast
    with step show ?thesis by (intro exI[of _ j']) simp
  qed
qed

lemma write_loop_total:
  assumes c: "honours_contract wr" and p: "makes_progress wr"
  shows "length ptr = n \<Longrightarrow> \<exists>k'. k \<le> k' \<and> write_loop wr ptr n out k = Some (out @ ptr, k')"
proof (induction n arbitrary: ptr out k rule: less_induct)
  case (less n)
  show ?case
  proof (cases "n = 0")
    case True
    with less.prems show ?thesis by (simp add: write_loop_done)
  next
    case False
    then have n: "0 < n" by simp
    from p n obtain j where "k \<le> j" "0 < wr j n" unfolding makes_progress_def by blast
    from write_loop_skip[OF c n this] obtain j' where
      j': "k \<le> j'" "0 < wr j' n" and eq: "write_loop wr ptr n out k = write_loop wr ptr n out j'"
      by blast
    from c have b: "wr j' n \<le> int n" "wr j' n < 2 ^ 31" by (simp_all add: honours_contract_def)
    let ?r = "nat (wr j' n)"
    have r: "0 < ?r" "?r \<le> n" using j'(2) b(1) by auto
    have adv: "write_loop wr ptr n out j' =
           write_loop wr (drop ?r ptr) (n - ?r) (out @ take ?r ptr) (j' + 1)"
      using n j'(2) b(2,1) by (rule write_loop_advance)
    have "\<exists>k'. j' + 1 \<le> k' \<and>
        write_loop wr (drop ?r ptr) (n - ?r) (out @ take ?r ptr) (j' + 1)
          = Some ((out @ take ?r ptr) @ drop ?r ptr, k')"
      using r less.prems by (intro less.IH) auto
    then obtain k' where "j' + 1 \<le> k'"
      "write_loop wr (drop ?r ptr) (n - ?r) (out @ take ?r ptr) (j' + 1) = Some (out @ ptr, k')"
      by auto
    with eq adv j'(1) show ?thesis by (intro exI[of _ k']) simp
  qed
qed

lemma write_loop_never_aux:
  assumes "write_loop wr ptr n out k = Some r"
  shows "wr = always_failing \<longrightarrow> 0 < n \<longrightarrow> False"
proof (rule write_loop.raw_induct
    [where P = "\<lambda>wr ptr n out k r. wr = always_failing \<longrightarrow> 0 < n \<longrightarrow> False", OF _ assms])
  fix f :: "(nat \<Rightarrow> nat \<Rightarrow> int) \<Rightarrow> string \<Rightarrow> nat \<Rightarrow> string \<Rightarrow> nat \<Rightarrow> (string \<times> nat) option"
    and wr ptr n out k r
  assume IH: "\<And>wr ptr n out k r. f wr ptr n out k = Some r \<Longrightarrow> wr = always_failing \<longrightarrow> 0 < n \<longrightarrow> False"
    and body: "(if 0 < n then
        (if 0 < c_int (wr k n)
         then f wr (drop (nat (c_int (wr k n))) ptr)
                (size_t_minus n (c_int (wr k n)))
                (out @ take (nat (wr k n)) ptr) (k + 1)
         else f wr ptr n (out @ take (nat (wr k n)) ptr) (k + 1))
      else Some (out, k)) = Some r"
  show "wr = always_failing \<longrightarrow> 0 < n \<longrightarrow> False"
  proof (intro impI)
    assume w: "wr = always_failing" and n: "0 < n"
    have "c_int (wr k n) = - 1" using w by (simp add: always_failing_def c_int_def)
    with body n have "f wr ptr n (out @ take (nat (wr k n)) ptr) (k + 1) = Some r" by simp
    from IH[OF this] w n show False by blast
  qed
qed

lemma write_loop_always_failing: "0 < n \<Longrightarrow> write_loop always_failing ptr n out k = None"
  using write_loop_never_aux[of always_failing ptr n out k] by (cases "write_loop always_failing ptr n out k") auto

lemma flush_pending_io_complete:
  assumes "honours_contract (write_returns io)" and "makes_progress (write_returns io)"
    and "0 < offset (buffers s i)" and "data (buffers s i) = Some d"
    and "offset (buffers s i) \<le> length d"
  shows "\<exists>k'. io_calls s \<le> k' \<and> flush_pending_io io (Some f) i s =
           ok (offset (buffers s i),
               s\<lparr>buffers := (buffers s)(i := (buffers s i)\<lparr>offset := 0\<rparr>),
                 files := (files s)(f \<mapsto>
                   \<lparr>content = contents s f @ take (offset (buffers s i)) d,
                    synced = length (contents s f @ take (offset (buffers s i)) d)\<rparr>),
                 io_calls := k'\<rparr>)"
proof -
  have "length (take (offset (buffers s i)) d) = offset (buffers s i)"
    using assms(5) by simp
  from write_loop_total[OF assms(1,2) this, of "io_calls s" "[]"]
  obtain k' where k: "io_calls s \<le> k'"
    and w: "write_loop (write_returns io) (take (offset (buffers s i)) d) (offset (buffers s i)) [] (io_calls s)
          = Some (take (offset (buffers s i)) d, k')"
    by auto
  show ?thesis
    using assms(3,4) k by (intro exI[of _ k']) (simp add: flush_pending_io_def w)
qed

text \<open>
  C5, as amended. Take a buffer with bytes to write and a write primitive that keeps to
  its contract and keeps making progress. Then \<open>flush_pending_io\<close> returns: every
  buffered byte has been handed to the file in order, the file is flushed and the
  offset of the buffer is 0. On the way a result of zero and a negative result are
  both retried with the same pointer and the same byte count, and a short write is
  followed by a write of the rest. Nothing in the loop tells a negative result from
  zero: an error does not end it.
\<close>

theorem write_loop_retries_until_written:
  assumes "honours_contract (write_returns io)" and "makes_progress (write_returns io)"
    and "0 < offset (buffers s i)" and "data (buffers s i) = Some d"
    and "offset (buffers s i) \<le> length d"
  shows "(\<exists>k'. flush_pending_io io (Some f) i s =
           ok (offset (buffers s i),
               s\<lparr>buffers := (buffers s)(i := (buffers s i)\<lparr>offset := 0\<rparr>),
                 files := (files s)(f \<mapsto>
                   \<lparr>content = contents s f @ take (offset (buffers s i)) d,
                    synced = length (contents s f @ take (offset (buffers s i)) d)\<rparr>),
                 io_calls := k'\<rparr>))
     \<and> (\<forall>ptr n out k. 0 < n \<and> write_returns io k n \<le> 0 \<longrightarrow>
           write_loop (write_returns io) ptr n out k
             = write_loop (write_returns io) ptr n out (k + 1))
     \<and> (\<forall>ptr n out k. 0 < n \<and> 0 < write_returns io k n \<longrightarrow>
           write_loop (write_returns io) ptr n out k
             = write_loop (write_returns io) (drop (nat (write_returns io k n)) ptr)
                 (n - nat (write_returns io k n))
                 (out @ take (nat (write_returns io k n)) ptr) (k + 1))"
proof (intro conjI allI impI)
  from flush_pending_io_complete[OF assms, of f]
  show "\<exists>k'. flush_pending_io io (Some f) i s =
           ok (offset (buffers s i),
               s\<lparr>buffers := (buffers s)(i := (buffers s i)\<lparr>offset := 0\<rparr>),
                 files := (files s)(f \<mapsto>
                   \<lparr>content = contents s f @ take (offset (buffers s i)) d,
                    synced = length (contents s f @ take (offset (buffers s i)) d)\<rparr>),
                 io_calls := k'\<rparr>)"
    by blast
next
  fix ptr n out k
  assume a: "0 < n \<and> write_returns io k n \<le> 0"
  from assms(1) have "- (2 ^ 31) \<le> write_returns io k n" by (simp add: honours_contract_def)
  with a show "write_loop (write_returns io) ptr n out k
             = write_loop (write_returns io) ptr n out (k + 1)"
    by (intro write_loop_retry) auto
next
  fix ptr n out k
  assume a: "0 < n \<and> 0 < write_returns io k n"
  from assms(1) have "write_returns io k n < 2 ^ 31" "write_returns io k n \<le> int n"
    by (simp_all add: honours_contract_def)
  with a show "write_loop (write_returns io) ptr n out k
             = write_loop (write_returns io) (drop (nat (write_returns io k n)) ptr)
                 (n - nat (write_returns io k n))
                 (out @ take (nat (write_returns io k n)) ptr) (k + 1)"
    by (intro write_loop_advance) auto
qed

lemma honours_contract_stuttering: "honours_contract stuttering"
  by (auto simp add: honours_contract_def stuttering_def min_def)

lemma makes_progress_stuttering: "makes_progress stuttering"
  unfolding makes_progress_def
proof (intro allI impI)
  fix k n :: nat
  have m: "(3 * k + 2) mod 3 = 2" by presburger
  assume "0 < n"
  with m have "k \<le> 3 * k + 2 \<and> 0 < stuttering (3 * k + 2) n" by (simp add: stuttering_def)
  then show "\<exists>j\<ge>k. 0 < stuttering j n" by blast
qed

theorem write_loop_retries_until_written_witness:
  "honours_contract (write_returns stuttering_io) \<and> makes_progress (write_returns stuttering_io)
   \<and> (\<exists>k'. flush_pending_io stuttering_io (Some ''log'') 0
              (copied ''abc'' (configured 64 1024 3 3 False True))
         = ok (3, (copied ''abc'' (configured 64 1024 3 3 False True))
                  \<lparr>buffers := (buffers (copied ''abc'' (configured 64 1024 3 3 False True)))
                      (0 := \<lparr>data = Some (''abc'' @ replicate 61 (CHR 0x00)), offset = 0\<rparr>),
                   files := (files (configured 64 1024 3 3 False True))(''log'' \<mapsto>
                      \<lparr>content = ''abc'', synced = 3\<rparr>),
                   io_calls := k'\<rparr>))"
proof -
  let ?s = "copied ''abc'' (configured 64 1024 3 3 False True)"
  have h1: "honours_contract (write_returns stuttering_io)"
    by (simp add: stuttering_io_def honours_contract_stuttering)
  have h2: "makes_progress (write_returns stuttering_io)"
    by (simp add: stuttering_io_def makes_progress_stuttering)
  have h3: "0 < offset (buffers ?s 0)" by (simp add: copied_def configured_def cur_def)
  have h4: "data (buffers ?s 0) = Some (''abc'' @ replicate 61 (CHR 0x00))"
    by (simp add: copied_def configured_def cur_def memcpy_at_def)
  have h5: "offset (buffers ?s 0) \<le> length (''abc'' @ replicate 61 (CHR 0x00))"
    by (simp add: copied_def configured_def cur_def)
  from write_loop_retries_until_written [OF h1 h2 h3 h4 h5, of "''log''"]
  obtain k' where "flush_pending_io stuttering_io (Some ''log'') 0 ?s =
           ok (offset (buffers ?s 0),
               ?s\<lparr>buffers := (buffers ?s)(0 := (buffers ?s 0)\<lparr>offset := 0\<rparr>),
                 files := (files ?s)(''log'' \<mapsto>
                   \<lparr>content = contents ?s ''log'' @ take (offset (buffers ?s 0)) (''abc'' @ replicate 61 (CHR 0x00)),
                    synced = length (contents ?s ''log'' @ take (offset (buffers ?s 0)) (''abc'' @ replicate 61 (CHR 0x00)))\<rparr>),
                 io_calls := k'\<rparr>)"
    by blast
  moreover have "offset (buffers ?s 0) = 3" "contents ?s ''log'' = []" "files ?s = files (configured 64 1024 3 3 False True)"
    "(buffers ?s 0)\<lparr>offset := 0\<rparr> = \<lparr>data = Some (''abc'' @ replicate 61 (CHR 0x00)), offset = 0\<rparr>"
    by (simp_all add: copied_def configured_def cur_def contents_def memcpy_at_def)
  ultimately show ?thesis using h1 h2 by (intro conjI exI[of _ k']) (simp_all add: numeral_3_eq_3)
qed

text \<open>
  The claim as stated lets the loop end when the primitive reports a fatal error. With
  a primitive that returns \<open>-1\<close> at every call the loop never ends, so
  \<open>flush_pending_io\<close> does not return.
\<close>

theorem fatal_write_error_counterexample:
  "flush_pending_io failing_io (Some ''log'') 0
     (copied ''abc'' (configured 64 1024 3 3 False True)) = None"
  by (simp add: flush_pending_io_def failing_io_def copied_def configured_def cur_def
        write_loop_always_failing)

subsection \<open>Opening the next log file\<close>

lemma word_succ:
  fixes a k :: "32 word"
  assumes "a < k"
  shows "unat (a + 1) = unat a + 1" and "a < a + 1" and "a + 1 \<le> k"
proof -
  from assms have lt: "unat a < unat k" by (simp add: word_less_nat_alt)
  have "unat k < 2 ^ 32" using unsigned_less[of k] by simp
  with lt have "unat a + unat (1 :: 32 word) < 2 ^ LENGTH(32)" by simp
  then have "unat (a + 1) = unat a + unat (1 :: 32 word)" by (simp only: unat_add_lem)
  then show u: "unat (a + 1) = unat a + 1" by simp
  from u show "a < a + 1" by (simp add: word_less_nat_alt)
  from u lt show "a + 1 \<le> k" by (simp add: word_le_nat_alt)
qed

lemma probe_finds:
  assumes "\<forall>i. a \<le> i \<and> i < k \<longrightarrow> present (logfile_name fnm i)"
    and "\<not> present (logfile_name fnm k)"
    and "\<forall>i. a \<le> i \<and> i \<le> k \<longrightarrow> length (logfile_name fnm i) < 1024"
  shows "a \<le> k \<Longrightarrow> probe present fnm a = ok (logfile_name fnm k, k + 1)"
  using assms(1,3)
proof (induction "unat k - unat a" arbitrary: a)
  case 0
  then have "unat a = unat k" by (simp add: word_le_nat_alt)
  then have a: "a = k" by (simp add: word_unat_eq_iff)
  from 0(4) a have len: "\<not> 1024 \<le> length (logfile_name fnm k)"
    by (simp add: not_le)
  from a assms(2) len show ?case
    by (subst probe.simps) (simp add: ok_def)
next
  case (Suc d)
  then have "unat a < unat k" by simp
  then have lt: "a < k" by (simp add: word_less_nat_alt)
  note s = word_succ[OF lt]
  from lt Suc.prems have pr: "present (logfile_name fnm a)" and len: "length (logfile_name fnm a) < 1024"
    by auto
  have step: "probe present fnm a = probe present fnm (a + 1)"
    using pr len by (subst probe.simps) simp
  have d: "d = unat k - unat (a + 1)" using Suc.hyps(2) s(1) by simp
  have up: "\<And>i. a + 1 \<le> i \<Longrightarrow> a \<le> i" using s(2) by auto
  have "probe present fnm (a + 1) = ok (logfile_name fnm k, k + 1)"
    using s(3) Suc.prems up by (intro Suc.hyps(1)[OF d]) auto
  with step show ?case by simp
qed

lemma probe_absent_aux:
  assumes "probe present fnm a = Some r"
  shows "\<forall>name i. r = Inr (name, i) \<longrightarrow> \<not> present name"
proof (rule probe.raw_induct
    [where P = "\<lambda>present fnm a r. \<forall>name i. r = Inr (name, i) \<longrightarrow> \<not> present name", OF _ assms])
  fix f :: "(string \<Rightarrow> bool) \<Rightarrow> string \<Rightarrow> 32 word \<Rightarrow> (string \<times> 32 word) result"
    and present fnm a r
  assume IH: "\<And>present fnm a r. f present fnm a = Some r \<Longrightarrow>
                \<forall>name i. r = Inr (name, i) \<longrightarrow> \<not> present name"
    and body: "(if 1024 \<le> length (logfile_name fnm a) then Some (Inl Buffer_overrun)
      else if present (logfile_name fnm a) then f present fnm (a + 1)
      else Some (Inr (logfile_name fnm a, a + 1))) = Some r"
  show "\<forall>name i. r = Inr (name, i) \<longrightarrow> \<not> present name"
  proof (cases "1024 \<le> length (logfile_name fnm a)")
    case True
    with body show ?thesis by auto
  next
    case False
    show ?thesis
    proof (cases "present (logfile_name fnm a)")
      case True
      with False body have "f present fnm (a + 1) = Some r" by simp
      from IH[OF this] show ?thesis .
    next
      case np: False
      with False body show ?thesis by auto
    qed
  qed
qed

lemma probe_absent: "probe present fnm a = ok (name, i) \<Longrightarrow> \<not> present name"
  using probe_absent_aux[of present fnm a "Inr (name, i)"] by (simp add: ok_def)

lemma open_logfile_cases:
  assumes "open_logfile io fnm s = ok (h, s')"
  shows "\<exists>name i. \<not> (files s name \<noteq> None) \<and> 
          (s' = s\<lparr>next_id := i, files := (files s)(name \<mapsto> \<lparr>content = [], synced = 0\<rparr>)\<rparr>
           \<or> s' = s\<lparr>next_id := i, stderr := stderr s @ open_failed_line\<rparr>)"
proof -
  from assms obtain name i where p: "probe (\<lambda>name. files s name \<noteq> None) fnm (next_id s) = ok (name, i)"
    and r: "(if open_succeeds io name
       then ok (Some name,
                s\<lparr>next_id := i, files := (files s)(name \<mapsto> \<lparr>content = [], synced = 0\<rparr>)\<rparr>)
       else ok (None, s\<lparr>next_id := i, stderr := stderr s @ open_failed_line\<rparr>)) = ok (h, s')"
    unfolding open_logfile_def and_then_eq_ok by auto
  from probe_absent[OF p] have "\<not> (files s name \<noteq> None)" .
  with r show ?thesis by (intro exI[of _ name] exI[of _ i]) (auto split: if_splits)
qed

lemma open_logfile_keeps:
  assumes "open_logfile io fnm s = ok (h, s')" and "files s f \<noteq> None"
  shows "files s' f = files s f"
proof -
  from open_logfile_cases[OF assms(1)] obtain name i where n: "\<not> (files s name \<noteq> None)" and
    c: "s' = s\<lparr>next_id := i, files := (files s)(name \<mapsto> \<lparr>content = [], synced = 0\<rparr>)\<rparr>
           \<or> s' = s\<lparr>next_id := i, stderr := stderr s @ open_failed_line\<rparr>"
    by blast
  from n assms(2) have "name \<noteq> f" by auto
  with c show ?thesis by auto
qed

lemma open_logfile_finds:
  assumes "\<forall>i. next_id s \<le> i \<and> i < k \<longrightarrow> files s (logfile_name fnm i) \<noteq> None"
    and "files s (logfile_name fnm k) = None"
    and "next_id s \<le> k"
    and "\<forall>i. next_id s \<le> i \<and> i \<le> k \<longrightarrow> length (logfile_name fnm i) < 1024"
    and "open_succeeds io (logfile_name fnm k)"
  shows "open_logfile io fnm s =
           ok (Some (logfile_name fnm k),
               s\<lparr>next_id := k + 1,
                 files := (files s)(logfile_name fnm k \<mapsto> \<lparr>content = [], synced = 0\<rparr>)\<rparr>)"
proof -
  have "probe (\<lambda>name. files s name \<noteq> None) fnm (next_id s) = ok (logfile_name fnm k, k + 1)"
    using assms(1,2,4,3) by (intro probe_finds) auto
  then show ?thesis using assms(5) by (simp add: open_logfile_def)
qed

lemma flush_pending_io_frame:
  assumes "flush_pending_io io file i s = ok (n, s1)"
  shows "fp s1 = fp s \<and> closed s1 = closed s \<and> next_id s1 = next_id s
       \<and> currsize s1 = currsize s \<and> cyclesz s1 = cyclesz s \<and> stderr s1 = stderr s
       \<and> (\<forall>g. file \<noteq> Some g \<longrightarrow> files s1 g = files s g)"
proof (cases "0 < offset (buffers s i)")
  case False
  with assms show ?thesis by (simp add: flush_pending_io_def)
next
  case True
  with assms obtain f d where f: "file = Some f" and d: "data (buffers s i) = Some d"
    by (auto simp: flush_pending_io_def crash_def ok_def split: option.splits)
  with assms True obtain out k where
    "s1 = s\<lparr>buffers := (buffers s)(i := (buffers s i)\<lparr>offset := 0\<rparr>),
            files := (files s)(f \<mapsto> \<lparr>content = contents s f @ out,
                                      synced = length (contents s f @ out)\<rparr>),
            io_calls := k\<rparr>"
    by (auto simp: flush_pending_io_def ok_def Option.bind_eq_Some_conv)
  with f show ?thesis by simp
qed

lemma flusher_cycle_leaves_old_file:
  assumes "flusher_cycle io fnm t = ok t'" and "fp t \<noteq> Some f" and "files t f \<noteq> None"
  shows "files t' f = files t f \<and> fp t' \<noteq> Some f"
proof -
  let ?t0 = "swap_buffers t"
  from assms(1) obtain n s1 where fl: "flush_pending_io io (fp ?t0) (currbuffer t) ?t0 = ok (n, s1)"
    and rest: "(if currsize s1 + n > cyclesz s1
       then and_then (reopen_logfile io (fp s1) fnm s1)
              (\<lambda>(h, s2). ok (s2\<lparr>fp := h, currsize := 0\<rparr>))
       else ok (s1\<lparr>currsize := currsize s1 + n\<rparr>)) = ok t'"
    unfolding flusher_cycle_def flusher_io_def and_then_eq_ok by auto
  have t0: "fp ?t0 = fp t" "files ?t0 = files t" by (simp_all add: swap_buffers_def)
  from flush_pending_io_frame[OF fl] assms(2) t0
  have s1: "fp s1 = fp t" "files s1 f = files t f" by auto
  show ?thesis
  proof (cases "currsize s1 + n > cyclesz s1")
    case False
    with rest have "t' = s1\<lparr>currsize := currsize s1 + n\<rparr>" by simp
    with s1 assms(2) show ?thesis by simp
  next
    case True
    with rest obtain h s2 where op: "open_logfile io fnm (close_logfile (fp s1) s1) = ok (h, s2)"
      and t': "t' = s2\<lparr>fp := h, currsize := 0\<rparr>"
      by (auto simp: reopen_logfile_def and_then_eq_ok split: prod.splits)
    have cl: "files (close_logfile (fp s1) s1) = files s1"
      by (simp add: close_logfile_def split: option.splits)
    from open_logfile_keeps[OF op, of f] cl s1 assms(3)
    have keep: "files s2 f = files t f" by simp
    have "h \<noteq> Some f"
    proof
      assume hf: "h = Some f"
      from op obtain name i where p: "probe (\<lambda>name. files (close_logfile (fp s1) s1) name \<noteq> None) fnm
             (next_id (close_logfile (fp s1) s1)) = ok (name, i)"
        and r: "(if open_succeeds io name
          then ok (Some name, (close_logfile (fp s1) s1)\<lparr>next_id := i,
                 files := (files (close_logfile (fp s1) s1))(name \<mapsto> \<lparr>content = [], synced = 0\<rparr>)\<rparr>)
          else ok (None, (close_logfile (fp s1) s1)\<lparr>next_id := i,
                 stderr := stderr (close_logfile (fp s1) s1) @ open_failed_line\<rparr>)) = ok (h, s2)"
        unfolding open_logfile_def and_then_eq_ok by auto
      from r hf have "name = f" by (auto split: if_splits)
      with probe_absent[OF p] cl s1 assms(3) show False by simp
    qed
    with keep t' show ?thesis by simp
  qed
qed

lemma sint_below:
  fixes k :: "32 word"
  assumes "k < 2 ^ 31"
  shows "sint k = uint k"
proof -
  from assms have a: "uint k < 2 ^ 31" by (simp add: word_less_def)
  have "(- (2 ^ 31) :: int) \<le> 0" by simp
  also have "0 \<le> uint k" by simp
  finally have "signed_take_bit 31 (uint k) = uint k"
    using a by (rule signed_take_bit_int_eq_self)
  then show ?thesis by (simp add: sint_uint)
qed

lemma sint_mono_below:
  fixes j k :: "32 word"
  assumes "j < k" and "k < 2 ^ 31"
  shows "sint j < sint k"
proof -
  from assms have "j < 2 ^ 31" by simp
  then have "sint j = uint j" by (rule sint_below)
  moreover have "sint k = uint k" using assms(2) by (rule sint_below)
  ultimately show ?thesis using assms(1) by (simp add: word_less_def)
qed

lemma open_logfile_first_free:
  assumes "first_free io fnm k s"
  shows "open_logfile io fnm s =
           ok (Some (logfile_name fnm k),
               s\<lparr>next_id := k + 1,
                 files := (files s)(logfile_name fnm k \<mapsto> \<lparr>content = [], synced = 0\<rparr>)\<rparr>)"
    and "k < k + 1"
proof -
  from assms have a: "\<forall>i. next_id s \<le> i \<and> i < k \<longrightarrow> files s (logfile_name fnm i) \<noteq> None"
    "files s (logfile_name fnm k) = None" "next_id s \<le> k"
    "\<forall>i. next_id s \<le> i \<and> i \<le> k \<longrightarrow> length (logfile_name fnm i) < 1024"
    "open_succeeds io (logfile_name fnm k)" and k: "k < 2 ^ 31"
    unfolding first_free_def by blast+
  from a show "open_logfile io fnm s =
           ok (Some (logfile_name fnm k),
               s\<lparr>next_id := k + 1,
                 files := (files s)(logfile_name fnm k \<mapsto> \<lparr>content = [], synced = 0\<rparr>)\<rparr>)"
    by (rule open_logfile_finds)
  from k show "k < k + 1" by (rule word_succ(2))
qed

lemma flush_pending_io_round:
  assumes "honours_contract (write_returns io)" and "makes_progress (write_returns io)"
    and "data (buffers s b) = Some d" and "offset (buffers s b) \<le> length d"
  shows "\<exists>s1. flush_pending_io io (Some f) b s = ok (offset (buffers s b), s1)
     \<and> contents s1 f = contents s f @ take (offset (buffers s b)) d
     \<and> (files s f \<noteq> None \<longrightarrow> files s1 f \<noteq> None)
     \<and> (\<forall>g. g \<noteq> f \<longrightarrow> files s1 g = files s g)
     \<and> buffers s1 = (buffers s)(b := (buffers s b)\<lparr>offset := 0\<rparr>)
     \<and> currbuffer s1 = currbuffer s \<and> fp s1 = fp s \<and> currsize s1 = currsize s
     \<and> cyclesz s1 = cyclesz s \<and> next_id s1 = next_id s \<and> closed s1 = closed s"
proof (cases "0 < offset (buffers s b)")
  case False
  then have z: "offset (buffers s b) = 0" by simp
  have "(buffers s b)\<lparr>offset := 0\<rparr> = buffers s b" using z by (cases "buffers s b") simp
  then have e: "(buffers s)(b := (buffers s b)\<lparr>offset := 0\<rparr>) = buffers s" by simp
  have "flush_pending_io io (Some f) b s = ok (offset (buffers s b), s)"
    using z by (simp add: flush_pending_io_def)
  then show ?thesis using z e by (intro exI[of _ s]) simp
next
  case True
  define x where "x = \<lparr>content = contents s f @ take (offset (buffers s b)) d,
                    synced = length (contents s f @ take (offset (buffers s b)) d)\<rparr>"
  from flush_pending_io_complete[OF assms(1,2) True assms(3,4), of f]
  obtain k' where fl: "flush_pending_io io (Some f) b s =
           ok (offset (buffers s b),
               s\<lparr>buffers := (buffers s)(b := (buffers s b)\<lparr>offset := 0\<rparr>),
                 files := (files s)(f \<mapsto> x), io_calls := k'\<rparr>)"
    unfolding x_def by auto
  define s1 where "s1 = s\<lparr>buffers := (buffers s)(b := (buffers s b)\<lparr>offset := 0\<rparr>),
                 files := (files s)(f \<mapsto> x), io_calls := k'\<rparr>"
  have "contents s1 f = contents s f @ take (offset (buffers s b)) d"
    "files s1 f \<noteq> None" "\<forall>g. g \<noteq> f \<longrightarrow> files s1 g = files s g"
    "buffers s1 = (buffers s)(b := (buffers s b)\<lparr>offset := 0\<rparr>)"
    "currbuffer s1 = currbuffer s" "fp s1 = fp s" "currsize s1 = currsize s"
    "cyclesz s1 = cyclesz s" "next_id s1 = next_id s" "closed s1 = closed s"
    by (simp_all add: s1_def contents_def x_def)
  with fl[folded s1_def] show ?thesis by (intro exI[of _ s1]) simp
qed

lemma copied_storage:
  "fp (copied msg s) = fp s" "next_id (copied msg s) = next_id s"
  "files (copied msg s) = files s" "closed (copied msg s) = closed s"
  "currsize (copied msg s) = currsize s" "cyclesz (copied msg s) = cyclesz s"
  "contents (copied msg s) f = contents s f"
  by (simp_all add: copied_def contents_def)

lemma writing_to_copied: "writing_to fnm j (copied msg s) = writing_to fnm j s"
  by (simp add: writing_to_def copied_storage)

lemma first_free_copied: "first_free io fnm k (copied msg s) = first_free io fnm k s"
  by (simp add: first_free_def copied_storage)

subsection \<open>Rotation\<close>

text \<open>
  C4. Between two rounds the background thread has the file numbered \<open>j\<close> open, and
  \<open>currsize\<close> is the number of bytes it has written to that file (\<open>writing_to\<close>). The
  write primitive keeps its contract and makes progress. Then:
  \<^item> the start of the thread brings this about: it opens the first free number from
    \<open>next_id\<close> on as an empty file, with \<open>currsize\<close> 0;
  \<^item> a round whose bytes leave \<open>currsize\<close> at or below \<open>cyclesz\<close> appends them to the
    open file and adds their number to \<open>currsize\<close>; the same file stays open, no
    file is closed, \<open>next_id\<close> stays;
  \<^item> a round whose bytes raise \<open>currsize\<close> above \<open>cyclesz\<close> appends them to the open
    file and closes it; with \<open>k\<close> the first free number from \<open>next_id\<close> on, it opens
    the file numbered \<open>k\<close>, a number above \<open>j\<close> (also as \<open>%d\<close> prints the two) and
    a name that no file had; the new file is empty, \<open>currsize\<close> is 0 and counts the
    bytes of the new file from there, \<open>next_id\<close> is \<open>k + 1\<close>; no later round,
    whatever the buffers hold by then, writes to the old file or reopens it.
\<close>

theorem rotation_after_threshold:
  assumes "honours_contract (write_returns io)" and "makes_progress (write_returns io)"
  shows "(first_free io fnm k s \<longrightarrow>
       (\<exists>s'. thread_start io fnm s = ok s'
          \<and> writing_to fnm k s' \<and> contents s' (logfile_name fnm k) = []
          \<and> next_id s' = k + 1
          \<and> (\<forall>g. g \<noteq> logfile_name fnm k \<longrightarrow> files s' g = files s g)
          \<and> closed s' = closed s \<and> cyclesz s' = cyclesz s
          \<and> buffers s' = buffers s \<and> currbuffer s' = currbuffer s))
   \<and> (writing_to fnm j s \<and> data (cur s) = Some d \<and> offset (cur s) \<le> length d
       \<and> currsize s + offset (cur s) \<le> cyclesz s \<longrightarrow>
       (\<exists>s'. flusher_cycle io fnm s = ok s'
          \<and> contents s' (logfile_name fnm j) = contents s (logfile_name fnm j) @ pending s
          \<and> writing_to fnm j s'
          \<and> currsize s' = currsize s + offset (cur s)
          \<and> next_id s' = next_id s
          \<and> (\<forall>g. g \<noteq> logfile_name fnm j \<longrightarrow> files s' g = files s g)
          \<and> closed s' = closed s \<and> cyclesz s' = cyclesz s
          \<and> buffers s' = (buffers s)(currbuffer s := (cur s)\<lparr>offset := 0\<rparr>)
          \<and> currbuffer s' = (if currbuffer s = 0 then 1 else 0)))
   \<and> (writing_to fnm j s \<and> data (cur s) = Some d \<and> offset (cur s) \<le> length d
       \<and> cyclesz s < currsize s + offset (cur s) \<and> first_free io fnm k s \<longrightarrow>
       (\<exists>s'. flusher_cycle io fnm s = ok s'
          \<and> contents s' (logfile_name fnm j) = contents s (logfile_name fnm j) @ pending s
          \<and> closed s' = logfile_name fnm j # closed s
          \<and> j < k \<and> sint j < sint k \<and> logfile_name fnm k \<noteq> logfile_name fnm j
          \<and> writing_to fnm k s' \<and> contents s' (logfile_name fnm k) = []
          \<and> currsize s' = 0
          \<and> next_id s' = k + 1
          \<and> (\<forall>g. g \<noteq> logfile_name fnm j \<and> g \<noteq> logfile_name fnm k \<longrightarrow> files s' g = files s g)
          \<and> cyclesz s' = cyclesz s
          \<and> buffers s' = (buffers s)(currbuffer s := (cur s)\<lparr>offset := 0\<rparr>)
          \<and> currbuffer s' = (if currbuffer s = 0 then 1 else 0)
          \<and> (\<forall>t t'. fp t = fp s' \<and> files t (logfile_name fnm j) = files s' (logfile_name fnm j)
                  \<and> flusher_cycle io fnm t = ok t'
               \<longrightarrow> files t' (logfile_name fnm j) = files s' (logfile_name fnm j)
                   \<and> fp t' \<noteq> Some (logfile_name fnm j))))"
proof (intro conjI impI)
  assume ff: "first_free io fnm k s"
  let ?new = "logfile_name fnm k"
  define s' where "s' = s\<lparr>next_id := k + 1,
                 files := (files s)(?new \<mapsto> \<lparr>content = [], synced = 0\<rparr>),
                 fp := Some ?new, currsize := 0\<rparr>"
  have "thread_start io fnm s = ok s'"
    by (simp add: thread_start_def open_logfile_first_free(1)[OF ff] s'_def)
  moreover have "writing_to fnm k s'"
    using open_logfile_first_free(2)[OF ff] by (simp add: writing_to_def s'_def contents_def)
  moreover have "contents s' ?new = []" "next_id s' = k + 1"
    "\<forall>g. g \<noteq> ?new \<longrightarrow> files s' g = files s g"
    "closed s' = closed s" "cyclesz s' = cyclesz s"
    "buffers s' = buffers s" "currbuffer s' = currbuffer s"
    by (simp_all add: s'_def contents_def)
  ultimately show "\<exists>s'. thread_start io fnm s = ok s'
          \<and> writing_to fnm k s' \<and> contents s' (logfile_name fnm k) = []
          \<and> next_id s' = k + 1
          \<and> (\<forall>g. g \<noteq> logfile_name fnm k \<longrightarrow> files s' g = files s g)
          \<and> closed s' = closed s \<and> cyclesz s' = cyclesz s
          \<and> buffers s' = buffers s \<and> currbuffer s' = currbuffer s"
    by (intro exI[of _ s']) simp
next
  assume a: "writing_to fnm j s \<and> data (cur s) = Some d \<and> offset (cur s) \<le> length d
       \<and> currsize s + offset (cur s) \<le> cyclesz s"
  let ?f = "logfile_name fnm j"
  define t0 where "t0 = swap_buffers s"
  define b where "b = currbuffer s"
  have t0: "buffers t0 = buffers s" "fp t0 = Some ?f" "files t0 = files s"
    "contents t0 ?f = contents s ?f" "currsize t0 = currsize s" "cyclesz t0 = cyclesz s"
    "next_id t0 = next_id s" "closed t0 = closed s"
    "currbuffer t0 = (if currbuffer s = 0 then 1 else 0)"
    using a by (simp_all add: t0_def swap_buffers_def contents_def writing_to_def)
  have bb: "data (buffers t0 b) = Some d" "offset (buffers t0 b) \<le> length d"
    using a by (simp_all add: t0 b_def cur_def)
  have pd: "pending s = take (offset (buffers s b)) d"
    using a by (simp add: pending_def cur_def b_def)
  from flush_pending_io_round[OF assms bb, of ?f]
  obtain s1 where fl: "flush_pending_io io (Some ?f) b t0 = ok (offset (buffers s b), s1)"
    and s1: "contents s1 ?f = contents s ?f @ pending s"
      "files t0 ?f \<noteq> None \<longrightarrow> files s1 ?f \<noteq> None"
      "\<forall>g. g \<noteq> ?f \<longrightarrow> files s1 g = files s g"
      "buffers s1 = (buffers s)(b := (buffers s b)\<lparr>offset := 0\<rparr>)"
      "currbuffer s1 = (if currbuffer s = 0 then 1 else 0)" "fp s1 = Some ?f"
      "currsize s1 = currsize s"
      "cyclesz s1 = cyclesz s" "next_id s1 = next_id s" "closed s1 = closed s"
    unfolding t0 pd by blast
  define s' where "s' = s1\<lparr>currsize := currsize s1 + offset (buffers s b)\<rparr>"
  have no: "\<not> cyclesz s1 < currsize s1 + offset (buffers s b)"
    using a s1 by (simp add: cur_def b_def)
  have cyc: "flusher_cycle io fnm s = ok s'"
    unfolding flusher_cycle_def flusher_io_def t0_def[symmetric] b_def[symmetric] t0 fl
    using no by (simp add: s'_def)
  have len: "length (pending s) = offset (cur s)"
    using a by (simp add: pd cur_def b_def)
  have w: "writing_to fnm j s'"
    using a s1 t0(3) len by (simp add: writing_to_def s'_def contents_def cur_def b_def)
  have props: "contents s' ?f = contents s ?f @ pending s"
    "currsize s' = currsize s + offset (cur s)" "next_id s' = next_id s"
    "\<forall>g. g \<noteq> ?f \<longrightarrow> files s' g = files s g" "closed s' = closed s" "cyclesz s' = cyclesz s"
    "buffers s' = (buffers s)(currbuffer s := (cur s)\<lparr>offset := 0\<rparr>)"
    "currbuffer s' = (if currbuffer s = 0 then 1 else 0)"
    using s1 by (simp_all add: s'_def contents_def cur_def b_def)
  from cyc w props show "\<exists>s'. flusher_cycle io fnm s = ok s'
          \<and> contents s' (logfile_name fnm j) = contents s (logfile_name fnm j) @ pending s
          \<and> writing_to fnm j s'
          \<and> currsize s' = currsize s + offset (cur s)
          \<and> next_id s' = next_id s
          \<and> (\<forall>g. g \<noteq> logfile_name fnm j \<longrightarrow> files s' g = files s g)
          \<and> closed s' = closed s \<and> cyclesz s' = cyclesz s
          \<and> buffers s' = (buffers s)(currbuffer s := (cur s)\<lparr>offset := 0\<rparr>)
          \<and> currbuffer s' = (if currbuffer s = 0 then 1 else 0)"
    by (intro exI[of _ s']) (intro conjI, assumption+)
next
  assume a: "writing_to fnm j s \<and> data (cur s) = Some d \<and> offset (cur s) \<le> length d
       \<and> cyclesz s < currsize s + offset (cur s) \<and> first_free io fnm k s"
  let ?f = "logfile_name fnm j"
  let ?new = "logfile_name fnm k"
  define t0 where "t0 = swap_buffers s"
  define b where "b = currbuffer s"
  have t0: "buffers t0 = buffers s" "fp t0 = Some ?f" "files t0 = files s"
    "contents t0 ?f = contents s ?f" "currsize t0 = currsize s" "cyclesz t0 = cyclesz s"
    "next_id t0 = next_id s" "closed t0 = closed s"
    "currbuffer t0 = (if currbuffer s = 0 then 1 else 0)"
    using a by (simp_all add: t0_def swap_buffers_def contents_def writing_to_def)
  have bb: "data (buffers t0 b) = Some d" "offset (buffers t0 b) \<le> length d"
    using a by (simp_all add: t0 b_def cur_def)
  have pd: "pending s = take (offset (buffers s b)) d"
    using a by (simp add: pending_def cur_def b_def)
  from flush_pending_io_round[OF assms bb, of ?f]
  obtain s1 where fl: "flush_pending_io io (Some ?f) b t0 = ok (offset (buffers s b), s1)"
    and s1: "contents s1 ?f = contents s ?f @ pending s"
      "files t0 ?f \<noteq> None \<longrightarrow> files s1 ?f \<noteq> None"
      "\<forall>g. g \<noteq> ?f \<longrightarrow> files s1 g = files s g"
      "buffers s1 = (buffers s)(b := (buffers s b)\<lparr>offset := 0\<rparr>)"
      "currbuffer s1 = (if currbuffer s = 0 then 1 else 0)" "fp s1 = Some ?f"
      "currsize s1 = currsize s"
      "cyclesz s1 = cyclesz s" "next_id s1 = next_id s" "closed s1 = closed s"
    unfolding t0 pd by blast
  have ex: "files s ?f \<noteq> None" and jn: "j < next_id s" using a by (simp_all add: writing_to_def)
  from a have ff: "first_free io fnm k s" by simp
  then have nk: "next_id s \<le> k" and k31: "k < 2 ^ 31" and free: "files s ?new = None"
    by (simp_all add: first_free_def)
  from jn nk have jk: "j < k" by simp
  from free ex have newf: "?new \<noteq> ?f" by auto
  have sjk: "sint j < sint k"
    using jk k31 by (rule sint_mono_below)
  define c where "c = close_logfile (Some ?f) s1"
  have c: "next_id c = next_id s" "files c ?f = files s1 ?f"
    "\<forall>g. g \<noteq> ?f \<longrightarrow> files c g = files s g" "closed c = ?f # closed s"
    "cyclesz c = cyclesz s" "buffers c = buffers s1" "currbuffer c = currbuffer s1"
    "contents c ?f = contents s1 ?f"
    using s1 by (simp_all add: c_def close_logfile_def contents_def)
  have s1f: "files s1 ?f \<noteq> None" using s1(2) ex t0(3) by simp
  have ffc: "first_free io fnm k c"
  proof -
    have "files c (logfile_name fnm i) \<noteq> None" if "files s (logfile_name fnm i) \<noteq> None" for i
      using that c(2,3) s1f by (cases "logfile_name fnm i = ?f") auto
    moreover have "files c ?new = None" using c(3) newf free by simp
    ultimately show ?thesis
      using ff unfolding first_free_def c(1) by blast
  qed
  define s' where "s' = c\<lparr>next_id := k + 1,
                 files := (files c)(?new \<mapsto> \<lparr>content = [], synced = 0\<rparr>),
                 fp := Some ?new, currsize := 0\<rparr>"
  have yes: "cyclesz s1 < currsize s1 + offset (buffers s b)"
    using a s1 by (simp add: cur_def b_def)
  have cyc: "flusher_cycle io fnm s = ok s'"
    unfolding flusher_cycle_def flusher_io_def t0_def[symmetric] b_def[symmetric] t0 fl
    using yes s1(6) open_logfile_first_free(1)[OF ffc]
    by (simp add: reopen_logfile_def c_def[symmetric] s'_def)
  have w: "writing_to fnm k s'"
    using open_logfile_first_free(2)[OF ff] by (simp add: writing_to_def s'_def contents_def)
  have props: "contents s' ?f = contents s ?f @ pending s"
    "closed s' = ?f # closed s" "contents s' ?new = []" "currsize s' = 0" "next_id s' = k + 1"
    "\<forall>g. g \<noteq> ?f \<and> g \<noteq> ?new \<longrightarrow> files s' g = files s g" "cyclesz s' = cyclesz s"
    "buffers s' = (buffers s)(currbuffer s := (cur s)\<lparr>offset := 0\<rparr>)"
    "currbuffer s' = (if currbuffer s = 0 then 1 else 0)"
    using s1 c newf by (simp_all add: s'_def contents_def cur_def b_def)
  have old: "fp s' = Some ?new" "files s' ?f \<noteq> None"
    using s1(2) ex t0(3) c(2) newf by (simp_all add: s'_def)
  have later: "\<forall>t t'. fp t = fp s' \<and> files t ?f = files s' ?f \<and> flusher_cycle io fnm t = ok t'
            \<longrightarrow> files t' ?f = files s' ?f \<and> fp t' \<noteq> Some ?f"
  proof (intro allI impI)
    fix t t'
    assume h: "fp t = fp s' \<and> files t ?f = files s' ?f \<and> flusher_cycle io fnm t = ok t'"
    then have "fp t \<noteq> Some ?f" "files t ?f \<noteq> None" using newf old by simp_all
    from flusher_cycle_leaves_old_file[OF _ this, of io fnm t'] h
    show "files t' ?f = files s' ?f \<and> fp t' \<noteq> Some ?f" by simp
  qed
  from cyc props(1,2) jk sjk newf w props(3-9) later
  show "\<exists>s'. flusher_cycle io fnm s = ok s'
          \<and> contents s' (logfile_name fnm j) = contents s (logfile_name fnm j) @ pending s
          \<and> closed s' = logfile_name fnm j # closed s
          \<and> j < k \<and> sint j < sint k \<and> logfile_name fnm k \<noteq> logfile_name fnm j
          \<and> writing_to fnm k s' \<and> contents s' (logfile_name fnm k) = []
          \<and> currsize s' = 0
          \<and> next_id s' = k + 1
          \<and> (\<forall>g. g \<noteq> logfile_name fnm j \<and> g \<noteq> logfile_name fnm k \<longrightarrow> files s' g = files s g)
          \<and> cyclesz s' = cyclesz s
          \<and> buffers s' = (buffers s)(currbuffer s := (cur s)\<lparr>offset := 0\<rparr>)
          \<and> currbuffer s' = (if currbuffer s = 0 then 1 else 0)
          \<and> (\<forall>t t'. fp t = fp s' \<and> files t (logfile_name fnm j) = files s' (logfile_name fnm j)
                  \<and> flusher_cycle io fnm t = ok t'
               \<longrightarrow> files t' (logfile_name fnm j) = files s' (logfile_name fnm j)
                   \<and> fp t' \<noteq> Some (logfile_name fnm j))"
    by (intro exI[of _ s']) (intro conjI, assumption+)
qed

theorem rotation_after_threshold_witness:
  "\<exists>s1 s2 s3.
     thread_start stuttering_io ''log''
       ((configured 64 5 3 3 False True)
          \<lparr>files := [''log.0.txt'' \<mapsto> \<lparr>content = ''old'', synced = 3\<rparr>,
                     ''log.2.txt'' \<mapsto> \<lparr>content = ''old'', synced = 3\<rparr>]\<rparr>) = ok s1
     \<and> flusher_cycle stuttering_io ''log'' (copied ''abcd'' s1) = ok s2
     \<and> flusher_cycle stuttering_io ''log'' (copied ''efgh'' s2) = ok s3
     \<and> fp s1 = Some ''log.1.txt'' \<and> contents s1 ''log.1.txt'' = [] \<and> currsize s1 = 0
     \<and> fp s2 = Some ''log.1.txt'' \<and> contents s2 ''log.1.txt'' = ''abcd'' \<and> currsize s2 = 4
     \<and> closed s2 = []
     \<and> fp s3 = Some ''log.3.txt'' \<and> contents s3 ''log.1.txt'' = ''abcdefgh''
     \<and> contents s3 ''log.3.txt'' = [] \<and> currsize s3 = 0
     \<and> closed s3 = [''log.1.txt''] \<and> next_id s3 = 4"
proof -
  define s0 where "s0 = (configured 64 5 3 3 False True)
          \<lparr>files := [''log.0.txt'' \<mapsto> \<lparr>content = ''old'', synced = 3\<rparr>,
                     ''log.2.txt'' \<mapsto> \<lparr>content = ''old'', synced = 3\<rparr>]\<rparr>"
  define z where "z = replicate 64 (CHR 0x00)"
  have io: "honours_contract (write_returns stuttering_io)"
    "makes_progress (write_returns stuttering_io)"
    by (simp_all add: stuttering_io_def honours_contract_stuttering makes_progress_stuttering)
  note r = rotation_after_threshold [OF io]
  note [simp] = copied_storage writing_to_copied first_free_copied
  have n: "logfile_name ''log'' 0 = ''log.0.txt''" "logfile_name ''log'' 1 = ''log.1.txt''"
    "logfile_name ''log'' 2 = ''log.2.txt''" "logfile_name ''log'' 3 = ''log.3.txt''"
    by code_simp+
  have s0: "next_id s0 = 0" "closed s0 = []" "cyclesz s0 = 5" "currbuffer s0 = 0"
    "buffers s0 = (\<lambda>i. \<lparr>data = Some z, offset = 0\<rparr>)"
    "files s0 ''log.0.txt'' \<noteq> None" "files s0 ''log.1.txt'' = None"
    "files s0 ''log.2.txt'' \<noteq> None" "files s0 ''log.3.txt'' = None"
    by (simp_all add: s0_def configured_def z_def)
  have lz: "length z = 64" by (simp add: z_def)
  have f0: "first_free stuttering_io ''log'' 1 s0"
    unfolding first_free_def
  proof (intro conjI allI impI)
    fix i :: "32 word"
    assume "next_id s0 \<le> i \<and> i < 1"
    then have "i = 0" by (simp add: word_less_1)
    then show "files s0 (logfile_name ''log'' i) \<noteq> None" by (simp add: n s0)
  next
    fix i :: "32 word"
    assume "next_id s0 \<le> i \<and> i \<le> 1"
    then have "i = 0 \<or> i = 1" by (auto simp: word_le_less_eq word_less_1)
    then show "length (logfile_name ''log'' i) < 1024" by (auto simp: n)
  qed (simp_all add: s0 n stuttering_io_def)
  from r [where fnm = "''log''" and k = 1 and s = s0, THEN conjunct1, rule_format, OF f0]
  obtain s1 where t1: "thread_start stuttering_io ''log'' s0 = ok s1"
    and w1: "writing_to ''log'' 1 s1" and c1: "contents s1 (logfile_name ''log'' 1) = []"
    and s1: "next_id s1 = 1 + 1"
      "\<forall>g. g \<noteq> logfile_name ''log'' 1 \<longrightarrow> files s1 g = files s0 g"
      "closed s1 = closed s0" "cyclesz s1 = cyclesz s0"
      "buffers s1 = buffers s0" "currbuffer s1 = currbuffer s0"
    by blast
  have z1: "currsize s1 = 0" "fp s1 = Some ''log.1.txt''"
    using w1 c1 by (simp_all add: writing_to_def n)
  have cur1: "cur s1 = \<lparr>data = Some z, offset = 0\<rparr>" by (simp add: cur_def s1 s0)
  have p1: "pending (copied ''abcd'' s1) = ''abcd''"
    using pending_copied[of s1 z "''abcd''"] by (simp add: cur1 pending_def)
  have a1: "writing_to ''log'' 1 (copied ''abcd'' s1)
      \<and> data (cur (copied ''abcd'' s1)) = Some (memcpy_at z 0 ''abcd'')
      \<and> offset (cur (copied ''abcd'' s1)) \<le> length (memcpy_at z 0 ''abcd'')
      \<and> currsize (copied ''abcd'' s1) + offset (cur (copied ''abcd'' s1))
          \<le> cyclesz (copied ''abcd'' s1)"
    using w1 by (simp add: cur1 z1 s1 s0 memcpy_at_def lz)
  from r [where fnm = "''log''" and j = 1 and s = "copied ''abcd'' s1",
          THEN conjunct2, THEN conjunct1, rule_format, OF a1]
  obtain s2 where t2: "flusher_cycle stuttering_io ''log'' (copied ''abcd'' s1) = ok s2"
    and c2: "contents s2 (logfile_name ''log'' 1)
               = contents (copied ''abcd'' s1) (logfile_name ''log'' 1) @ pending (copied ''abcd'' s1)"
    and w2: "writing_to ''log'' 1 s2"
    and s2: "currsize s2 = currsize (copied ''abcd'' s1) + offset (cur (copied ''abcd'' s1))"
      "next_id s2 = next_id (copied ''abcd'' s1)"
      "\<forall>g. g \<noteq> logfile_name ''log'' 1 \<longrightarrow> files s2 g = files (copied ''abcd'' s1) g"
      "closed s2 = closed (copied ''abcd'' s1)" "cyclesz s2 = cyclesz (copied ''abcd'' s1)"
      "buffers s2 = (buffers (copied ''abcd'' s1))
          (currbuffer (copied ''abcd'' s1) := (cur (copied ''abcd'' s1))\<lparr>offset := 0\<rparr>)"
      "currbuffer s2 = (if currbuffer (copied ''abcd'' s1) = 0 then 1 else 0)"
    by blast
  have z2: "currsize s2 = 4" "fp s2 = Some ''log.1.txt''" "contents s2 ''log.1.txt'' = ''abcd''"
    "closed s2 = []" "next_id s2 = 2" "cyclesz s2 = 5" "currbuffer s2 = 1"
    using w2 c2 c1 by (simp_all add: s2 writing_to_def n p1 cur1 z1 s1 s0)
  have cur2: "cur s2 = \<lparr>data = Some z, offset = 0\<rparr>"
    by (simp add: cur_def z2 s2 s1 s0)
  have fl2: "files s2 ''log.2.txt'' \<noteq> None" "files s2 ''log.3.txt'' = None"
    using s2(3) s1(2) s0 by (simp_all add: n)
  have p2: "pending (copied ''efgh'' s2) = ''efgh''"
    using pending_copied[of s2 z "''efgh''"] by (simp add: cur2 pending_def)
  have f2: "first_free stuttering_io ''log'' 3 s2"
    unfolding first_free_def
  proof (intro conjI allI impI)
    fix i :: "32 word"
    assume "next_id s2 \<le> i \<and> i < 3"
    then have "2 \<le> unat i \<and> unat i < 3" by (simp add: z2 word_le_nat_alt word_less_nat_alt)
    then have "unat i = unat (2 :: 32 word)" by simp
    then have "i = 2" by (simp only: word_unat_eq_iff)
    then show "files s2 (logfile_name ''log'' i) \<noteq> None" by (simp add: n fl2)
  next
    fix i :: "32 word"
    assume "next_id s2 \<le> i \<and> i \<le> 3"
    then have "2 \<le> unat i \<and> unat i \<le> 3" by (simp add: z2 word_le_nat_alt)
    then have "unat i = unat (2 :: 32 word) \<or> unat i = unat (3 :: 32 word)" by auto
    then have "i = 2 \<or> i = 3" by (simp only: word_unat_eq_iff)
    then show "length (logfile_name ''log'' i) < 1024" by (auto simp: n)
  qed (simp_all add: z2 fl2 n stuttering_io_def)
  have a2: "writing_to ''log'' 1 (copied ''efgh'' s2)
      \<and> data (cur (copied ''efgh'' s2)) = Some (memcpy_at z 0 ''efgh'')
      \<and> offset (cur (copied ''efgh'' s2)) \<le> length (memcpy_at z 0 ''efgh'')
      \<and> cyclesz (copied ''efgh'' s2)
          < currsize (copied ''efgh'' s2) + offset (cur (copied ''efgh'' s2))
      \<and> first_free stuttering_io ''log'' 3 (copied ''efgh'' s2)"
    using w2 f2 by (simp add: cur2 z2 memcpy_at_def lz)
  from r [where fnm = "''log''" and j = 1 and k = 3 and s = "copied ''efgh'' s2",
          THEN conjunct2, THEN conjunct2, rule_format, OF a2]
  obtain s3 where t3: "flusher_cycle stuttering_io ''log'' (copied ''efgh'' s2) = ok s3"
    and c3: "contents s3 (logfile_name ''log'' 1)
               = contents (copied ''efgh'' s2) (logfile_name ''log'' 1) @ pending (copied ''efgh'' s2)"
    and s3: "closed s3 = logfile_name ''log'' 1 # closed (copied ''efgh'' s2)"
      "writing_to ''log'' 3 s3" "contents s3 (logfile_name ''log'' 3) = []"
      "currsize s3 = 0" "next_id s3 = 3 + 1"
    by blast
  have z3: "fp s3 = Some ''log.3.txt''" "contents s3 ''log.1.txt'' = ''abcdefgh''"
    "contents s3 ''log.3.txt'' = []" "currsize s3 = 0" "closed s3 = [''log.1.txt'']"
    "next_id s3 = 4"
    using c3 s3 by (simp_all add: writing_to_def n p2 z2)
  from t1 t2 t3 z1 c1 z2 z3 show ?thesis
    unfolding s0_def n by (intro exI[of _ s1] exI[of _ s2] exI[of _ s3]) simp
qed

subsection \<open>Shutting down\<close>

text \<open>
  The first shutdown of a running logger, in general: with a file open, storage that
  makes progress, the other buffer empty (the thread is between two rounds) and room
  for the summary line, \<open>logger_shutdown\<close> returns; the file has gained the bytes
  that were waiting and the summary line, is flushed and closed; the buffers are
  freed; \<open>lastlog\<close> is as it was. A shutdown that finds the buffers freed and a count
  above 1 writes into freed memory.
\<close>

lemma drain_done: "offset (cur s) = 0 \<Longrightarrow> drain io h s = ok s"
  by (subst drain.simps) (simp add: ok_def)

lemma drain_step:
  assumes "offset (cur s) \<noteq> 0"
    and "flush_pending_io io h (currbuffer s) (swap_buffers s) = ok (n, s1)"
  shows "drain io h s = drain io h s1"
  using assms by (subst drain.simps) (simp add: ok_def)

lemma thread_exit_drains:
  assumes io: "honours_contract (write_returns io)" "makes_progress (write_returns io)"
    and fp: "fp s = Some f"
    and act: "data (cur s) = Some d" "offset (cur s) \<le> length d"
    and pas: "offset (buffers s (if currbuffer s = 0 then 1 else 0)) = 0"
  shows "\<exists>s'. thread_exit io s = ok s'
     \<and> contents s' f = contents s f @ pending s
     \<and> (pending s \<noteq> [] \<longrightarrow> files s' f = Some \<lparr>content = contents s f @ pending s,
                                   synced = length (contents s f @ pending s)\<rparr>)
     \<and> (pending s = [] \<longrightarrow> files s' = files s)
     \<and> (\<forall>g. g \<noteq> f \<longrightarrow> files s' g = files s g)
     \<and> closed s' = f # closed s
     \<and> (\<forall>i. data (buffers s' i) = None)
     \<and> offset (cur s') = 0
     \<and> lastlog s' = lastlog s \<and> buffersz s' = buffersz s \<and> run s' = run s"
proof (cases "offset (cur s) = 0")
  case True
  have d: "drain io (fp s) s = ok s" using True by (rule drain_done)
  have p: "pending s = []" using True act by (simp add: pending_def)
  let ?s' = "free_buffers (close_logfile (fp s) s)"
  have "thread_exit io s = ok ?s'" using fp d by (simp add: thread_exit_def)
  moreover have "contents ?s' f = contents s f @ pending s" "files ?s' = files s"
    "closed ?s' = f # closed s" "\<forall>i. data (buffers ?s' i) = None" "offset (cur ?s') = 0"
    "lastlog ?s' = lastlog s" "buffersz ?s' = buffersz s" "run ?s' = run s"
    using fp p True by (simp_all add: free_buffers_def close_logfile_def contents_def cur_def)
  ultimately show ?thesis using p by (intro exI[of _ ?s']) simp
next
  case False
  define t0 where "t0 = swap_buffers s"
  define b where "b = currbuffer s"
  define x where "x = \<lparr>content = contents s f @ pending s,
                         synced = length (contents s f @ pending s)\<rparr>"
  have t0: "buffers t0 = buffers s" "files t0 = files s" "contents t0 f = contents s f"
    "currbuffer t0 = (if b = 0 then 1 else 0)" "fp t0 = fp s"
    by (simp_all add: t0_def b_def swap_buffers_def contents_def)
  have bb: "0 < offset (buffers t0 b)" "data (buffers t0 b) = Some d"
    "offset (buffers t0 b) \<le> length d"
    using False act by (simp_all add: t0 b_def cur_def)
  have pd: "pending s = take (offset (buffers s b)) d"
    using act by (simp add: pending_def cur_def b_def)
  from flush_pending_io_complete[OF io bb, of f]
  obtain k' where fl: "flush_pending_io io (Some f) b t0 =
           ok (offset (buffers s b),
               t0\<lparr>buffers := (buffers s)(b := (buffers s b)\<lparr>offset := 0\<rparr>),
                 files := (files s)(f \<mapsto> x), io_calls := k'\<rparr>)"
    unfolding t0 x_def pd by auto
  define s1 where "s1 = t0\<lparr>buffers := (buffers s)(b := (buffers s b)\<lparr>offset := 0\<rparr>),
                 files := (files s)(f \<mapsto> x), io_calls := k'\<rparr>"
  have s1: "fp s1 = Some f" "files s1 = (files s)(f \<mapsto> x)" "closed s1 = closed s"
    "lastlog s1 = lastlog s" "buffersz s1 = buffersz s" "run s1 = run s"
    "currbuffer s1 = (if b = 0 then 1 else 0)"
    using fp by (simp_all add: s1_def t0 t0_def swap_buffers_def b_def)
  have c1: "offset (cur s1) = 0"
    using pas by (simp add: cur_def s1_def t0 b_def)
  have fl': "flush_pending_io io (Some f) (currbuffer s) (swap_buffers s)
               = ok (offset (buffers s b), s1)"
    using fl unfolding s1_def t0_def b_def .
  have st: "drain io (Some f) s = drain io (Some f) s1"
    using False fl' by (rule drain_step)
  have d: "drain io (fp s) s = ok s1"
    unfolding fp st using c1 by (rule drain_done)
  define s' where "s' = free_buffers (close_logfile (fp s1) s1)"
  have te: "thread_exit io s = ok s'" using fp d by (simp add: thread_exit_def s'_def)
  have ne: "pending s \<noteq> []" using False act by (auto simp add: pending_def)
  have props: "contents s' f = contents s f @ pending s" "files s' f = Some x"
    "\<forall>g. g \<noteq> f \<longrightarrow> files s' g = files s g"
    "closed s' = f # closed s" "\<forall>i. data (buffers s' i) = None" "offset (cur s') = 0"
    "lastlog s' = lastlog s" "buffersz s' = buffersz s" "run s' = run s"
    using s1 c1 by (simp_all add: s'_def free_buffers_def close_logfile_def contents_def cur_def x_def)
  from te props ne show ?thesis unfolding x_def by (intro exI[of _ s']) simp
qed

lemma logger_shutdown_drains:
  assumes io: "honours_contract (write_returns io)" "makes_progress (write_returns io)"
    and run: "run s" and fp: "fp s = Some f"
    and act: "data (cur s) = Some d" "offset (cur s) \<le> length d"
    and pas: "offset (buffers s (if currbuffer s = 0 then 1 else 0)) = 0"
    and room: "offset (cur s) + length (pending_summary s) < buffersz s"
  shows "\<exists>s'. logger_shutdown env io s = ok s'
     \<and> contents s' f = contents s f @ pending s @ pending_summary s
     \<and> (pending s @ pending_summary s \<noteq> [] \<longrightarrow>
          files s' f = Some \<lparr>content = contents s f @ pending s @ pending_summary s,
                             synced = length (contents s f @ pending s @ pending_summary s)\<rparr>)
     \<and> (\<forall>g. g \<noteq> f \<longrightarrow> files s' g = files s g)
     \<and> f \<in> set (closed s') \<and> \<not> run s'
     \<and> (\<forall>i. data (buffers s' i) = None)
     \<and> offset (cur s') = 0
     \<and> lastlog s' = lastlog s \<and> buffersz s' = buffersz s"
proof -
  define a where "a = (copied (pending_summary s) s)\<lparr>run := False\<rparr>"
  have fl: "flush_last_log env s = ok (copied (pending_summary s) s)"
    using room act(1) by (rule flush_last_log_room)
  have sh: "logger_shutdown env io s = thread_exit io a"
  proof -
    have "run (copied (pending_summary s) s)" using run by (simp add: copied_def)
    then show ?thesis by (simp add: logger_shutdown_def fl a_def)
  qed
  have ca: "cur a = cur (copied (pending_summary s) s)" by (simp add: a_def cur_def)
  have a1: "fp a = Some f" using fp by (simp add: a_def copied_def)
  have a2: "data (cur a) = Some (memcpy_at d (offset (cur s)) (pending_summary s))"
    unfolding ca using act(1) by simp
  have a3: "offset (cur a) \<le> length (memcpy_at d (offset (cur s)) (pending_summary s))"
    unfolding ca using memcpy_at_covers[OF act(2), of "pending_summary s"] by simp
  have a4: "offset (buffers a (if currbuffer a = 0 then 1 else 0)) = 0"
    using pas by (simp add: a_def copied_def)
  have pa: "pending a = pending s @ pending_summary s"
    using pending_copied[OF act, of "pending_summary s"] unfolding pending_def ca .
  have fr: "contents a f = contents s f" "closed a = closed s" "lastlog a = lastlog s"
    "buffersz a = buffersz s" "run a = False" "files a = files s"
    by (simp_all add: a_def copied_def contents_def)
  from thread_exit_drains[OF io a1 a2 a3 a4]
  obtain s' where "thread_exit io a = ok s'" "contents s' f = contents a f @ pending a"
    "pending a \<noteq> [] \<longrightarrow> files s' f = Some \<lparr>content = contents a f @ pending a,
                                   synced = length (contents a f @ pending a)\<rparr>"
    "\<forall>g. g \<noteq> f \<longrightarrow> files s' g = files a g"
    "closed s' = f # closed a" "\<forall>i. data (buffers s' i) = None" "offset (cur s') = 0"
    "lastlog s' = lastlog a" "buffersz s' = buffersz a" "run s' = run a"
    by blast
  then show ?thesis unfolding sh pa fr by (intro exI[of _ s']) simp
qed

lemma shutdown_with_freed_buffers:
  assumes "data (cur s) = None" and "1 <s ll_count (lastlog s)"
    and "offset (cur s) + length (pending_summary s) < buffersz s"
  shows "logger_shutdown env io s = crash Use_after_free"
proof -
  have "do_add_log_entry env (repeated_line (ll_count (lastlog s))) s = crash Use_after_free"
    using assms by (subst do_add_log_entry.simps) (simp add: pending_summary_def crash_def)
  then show ?thesis
    using assms(2) by (simp add: logger_shutdown_def flush_last_log_def)
qed

lemma second_shutdown_faults:
  assumes "honours_contract (write_returns io)" and "makes_progress (write_returns io)"
    and "run s" and "fp s = Some f"
    and "data (cur s) = Some d" and "offset (cur s) \<le> length d"
    and "offset (buffers s (if currbuffer s = 0 then 1 else 0)) = 0"
    and "offset (cur s) + length (pending_summary s) < buffersz s"
    and "1 <s ll_count (lastlog s)"
  shows "and_then (logger_shutdown env io s) (logger_shutdown env io) = crash Use_after_free"
proof -
  from logger_shutdown_drains[OF assms(1-8), of env]
  obtain s' where r: "logger_shutdown env io s = ok s'"
    and p: "\<forall>i. data (buffers s' i) = None" "offset (cur s') = 0"
      "lastlog s' = lastlog s" "buffersz s' = buffersz s"
    by blast
  have "logger_shutdown env io s' = crash Use_after_free"
  proof (rule shutdown_with_freed_buffers)
    show "data (cur s') = None" using p(1) by (simp add: cur_def)
    show "1 <s ll_count (lastlog s')" using assms(9) p(3) by simp
    show "offset (cur s') + length (pending_summary s') < buffersz s'"
      using assms(8,9) p(2,3,4) by (simp add: pending_summary_def)
  qed
  with r show ?thesis by simp
qed

text \<open>
  C3. A logger with reliable storage logs the same message three times and is shut
  down. The first \<open>logger_shutdown\<close> does what the claim says: the file holds the
  record and the line \<open>message repeated 2 times\<close>, it is closed, \<open>run\<close> is cleared.
  But \<open>flush_last_log\<close> does not reset \<open>lastlog.count\<close>, the thread has freed both
  buffers on its way out, and \<open>logger_shutdown\<close> calls \<open>flush_last_log\<close> before it looks
  at \<open>run\<close>: a second \<open>logger_shutdown\<close> copies the summary line into freed memory.
  So does a \<open>logger_shutdown\<close> that comes after \<open>exit_handler\<close> has stopped the thread.
\<close>

theorem second_shutdown_after_free:
  "observe (\<lambda>s. (contents s ''log.0.txt'', closed s, run s))
     (and_then (and_then (and_then (and_then
        (thread_start reliable_io ''log'' (configured 64 1024 3 3 False True))
        (logger_log id 3 (Clock ''T'') ''x''))
        (logger_log id 3 (Clock ''U'') ''x''))
        (logger_log id 3 (Clock ''V'') ''x''))
        (logger_shutdown id reliable_io))
     = ok (''T 3: x'' @ [nl] @ ''message repeated 2 times'' @ [nl], [''log.0.txt''], False)
   \<and> observe (\<lambda>s. ())
     (and_then (and_then (and_then (and_then (and_then
        (thread_start reliable_io ''log'' (configured 64 1024 3 3 False True))
        (logger_log id 3 (Clock ''T'') ''x''))
        (logger_log id 3 (Clock ''U'') ''x''))
        (logger_log id 3 (Clock ''V'') ''x''))
        (logger_shutdown id reliable_io))
        (logger_shutdown id reliable_io))
     = crash Use_after_free
   \<and> observe (\<lambda>s. ())
     (and_then (and_then (and_then (and_then (and_then
        (thread_start reliable_io ''log'' (configured 64 1024 3 3 False True))
        (logger_log id 3 (Clock ''T'') ''x''))
        (logger_log id 3 (Clock ''U'') ''x''))
        (logger_log id 3 (Clock ''V'') ''x''))
        (exit_handler reliable_io))
        (logger_shutdown id reliable_io))
     = crash Use_after_free"
  by code_simp

subsection \<open>Runs of identical records\<close>

lemma run_logged:
  assumes "\<forall>q\<in>set (p # ps). length q + length b < 512"
    and "ll_offset (lastlog s) + length b \<le> 512"
    and "\<not> memcmp_lastlog (lastlog s) (p @ b) (length p)"
    and "data (cur s) = Some d" and "offset (cur s) \<le> length d"
    and "length ps < 2 ^ 31"
    and "offset (cur s) + length (pending_summary s) + length (p @ b) < buffersz s"
  shows "\<exists>s' d'. log_all env (map (\<lambda>q. (q @ b, length q)) (p # ps)) s = ok s'
     \<and> pending s' = pending s @ pending_summary s @ (p @ b)
     \<and> pending_summary s' = (if 1 < length ps then repeated_line (of_nat (length ps)) else [])
     \<and> data (cur s') = Some d' \<and> offset (cur s') \<le> length d'
     \<and> offset (cur s') = offset (cur s) + length (pending_summary s) + length (p @ b)
     \<and> (\<forall>i. i \<noteq> currbuffer s \<longrightarrow> buffers s' i = buffers s i)
     \<and> currbuffer s' = currbuffer s \<and> buffersz s' = buffersz s
     \<and> run s' = run s \<and> fp s' = fp s \<and> files s' = files s \<and> closed s' = closed s"
proof -
  let ?post = "if 1 < length ps then repeated_line (of_nat (length ps)) else []"
  let ?a = "copied (pending_summary s) s"
  let ?b = "copied (p @ b) ?a"
  let ?ll = "\<lparr>ll_buffer = memcpy_at (ll_buffer (lastlog s)) 0 (p @ b),
              ll_count = 0, ll_offset = length p\<rparr>"
  let ?s1 = "?b\<lparr>lastlog := ?ll\<rparr>"
  let ?s2 = "?s1\<lparr>lastlog := (lastlog ?s1)\<lparr>ll_count := ll_count (lastlog ?s1) + of_nat (length ps)\<rparr>\<rparr>"
  let ?d' = "memcpy_at (memcpy_at d (offset (cur s)) (pending_summary s))
              (offset (cur s) + length (pending_summary s)) (p @ b)"
  have first: "add_log_entry env (p @ b) (length p) s = ok ?s1"
    using assms(1,2,3,4,7) by (intro add_log_entry_new) auto
  have rest: "log_all env (map (\<lambda>q. (q @ b, length q)) ps) ?s1 = ok ?s2"
    using assms(1) by (intro log_all_repeats[where old = "ll_buffer (lastlog s)" and p = p]) auto
  have total: "log_all env (map (\<lambda>q. (q @ b, length q)) (p # ps)) s = ok ?s2"
    using first rest by simp
  have summ: "pending_summary ?s2 = ?post"
    using assms(6) by (simp add: pending_summary_def count_sless)
  have cur2: "cur ?s2 = cur ?b" by (simp add: cur_def)
  have dat: "data (cur ?s2) = Some ?d'"
    unfolding cur2 using assms(4) by simp
  have off: "offset (cur ?s2) = offset (cur s) + length (pending_summary s) + length (p @ b)"
    unfolding cur2 by simp
  have pa: "pending ?a = pending s @ pending_summary s"
    using assms(4,5) by (rule pending_copied)
  have la: "offset (cur s) + length (pending_summary s)
              \<le> length (memcpy_at d (offset (cur s)) (pending_summary s))"
    using assms(5) by (rule memcpy_at_covers)
  have pb: "pending ?b = pending ?a @ (p @ b)"
    using assms(4) la by (intro pending_copied) auto
  have p2: "pending ?s2 = pending ?b"
    unfolding pending_def cur2 ..
  have lb: "offset (cur ?s2) \<le> length ?d'"
    unfolding off using la by (rule memcpy_at_covers)
  have others: "\<forall>i. i \<noteq> currbuffer s \<longrightarrow> buffers ?s2 i = buffers s i"
    by (simp add: copied_def)
  have fr: "currbuffer ?s2 = currbuffer s" "buffersz ?s2 = buffersz s"
    "run ?s2 = run s" "fp ?s2 = fp s" "files ?s2 = files s" "closed ?s2 = closed s"
    by (simp_all add: copied_def)
  have pp: "pending ?s2 = pending s @ pending_summary s @ (p @ b)"
    using pa pb p2 by simp
  from total pp summ dat lb off others fr show ?thesis
    by (intro exI[of _ ?s2] exI[of _ ?d']) (intro conjI, assumption+)
qed

text \<open>
  C1, as amended. A logger is running, with its file \<open>f\<close> open, its buffers allocated
  (the used part of the active one inside its segment) and the background thread
  between two rounds (the other buffer empty). A run of \<open>n\<close> records with the same
  body \<open>b\<close> and the prefixes \<open>p # ps\<close> (so \<open>n = length ps + 1\<close>), each shorter than
  512 bytes, is passed to \<open>add_log_entry\<close>, and then \<open>logger_shutdown\<close> is called.
  What is asked:
  \<^item> the comparison of \<open>add_log_entry\<close> stays inside \<open>lastlog.buffer\<close> and does not
    take the first record for a repeat: the bytes stored behind the prefix of the
    last message do not begin with \<open>b\<close>;
  \<^item> the active buffer has room for what is appended, so that no call waits;
  \<^item> \<open>n - 1 < 2^31\<close>, which keeps the count positive;
  \<^item> the write primitive keeps its contract and makes progress.

  Then the file is flushed and closed, and it has gained: the bytes that were waiting
  and the summary still owed for the run before, one copy of the first record, and
  the line \<open>message repeated n-1 times\<close> exactly when \<open>n - 1 > 1\<close>. For \<open>n = 1\<close> and
  for \<open>n = 2\<close> there is no summary line. No other file changes.
\<close>

theorem run_of_identical_records:
  assumes "honours_contract (write_returns io)" and "makes_progress (write_returns io)"
    and "run s" and "fp s = Some f"
    and "data (cur s) = Some d" and "offset (cur s) \<le> length d"
    and "offset (buffers s (if currbuffer s = 0 then 1 else 0)) = 0"
    and "\<forall>q\<in>set (p # ps). length q + length b < 512"
    and "ll_offset (lastlog s) + length b \<le> 512"
    and "\<not> memcmp_lastlog (lastlog s) (p @ b) (length p)"
    and "length ps < 2 ^ 31"
    and "offset (cur s) + length (pending_summary s) + length (p @ b)
           + length (if 1 < length ps then repeated_line (of_nat (length ps)) else [])
         < buffersz s"
  shows "\<exists>s'. and_then (log_all env (map (\<lambda>q. (q @ b, length q)) (p # ps)) s)
                 (logger_shutdown env io) = ok s'
     \<and> files s' f = Some
          \<lparr>content = contents s f @ pending s @ pending_summary s @ (p @ b)
               @ (if 1 < length ps then repeated_line (of_nat (length ps)) else []),
           synced = length (contents s f @ pending s @ pending_summary s @ (p @ b)
               @ (if 1 < length ps then repeated_line (of_nat (length ps)) else []))\<rparr>
     \<and> (\<forall>g. g \<noteq> f \<longrightarrow> files s' g = files s g)
     \<and> f \<in> set (closed s')"
proof -
  let ?post = "if 1 < length ps then repeated_line (of_nat (length ps)) else []"
  have room: "offset (cur s) + length (pending_summary s) + length (p @ b) < buffersz s"
    using assms(12) by simp
  from run_logged[OF assms(8,9,10,5,6,11) room, of env]
  obtain s2 d2 where l: "log_all env (map (\<lambda>q. (q @ b, length q)) (p # ps)) s = ok s2"
    and p2: "pending s2 = pending s @ pending_summary s @ (p @ b)"
    and su: "pending_summary s2 = ?post"
    and d2: "data (cur s2) = Some d2" "offset (cur s2) \<le> length d2"
    and o2: "offset (cur s2) = offset (cur s) + length (pending_summary s) + length (p @ b)"
    and ot: "\<forall>i. i \<noteq> currbuffer s \<longrightarrow> buffers s2 i = buffers s i"
    and fr: "currbuffer s2 = currbuffer s" "buffersz s2 = buffersz s"
      "run s2 = run s" "fp s2 = fp s" "files s2 = files s" "closed s2 = closed s"
    by blast
  have r2: "run s2" "fp s2 = Some f" using assms(3,4) fr by simp_all
  have pas: "offset (buffers s2 (if currbuffer s2 = 0 then 1 else 0)) = 0"
    using ot assms(7) fr(1) by simp
  have rm: "offset (cur s2) + length (pending_summary s2) < buffersz s2"
    using assms(12) by (simp add: o2 su fr)
  have ne: "p @ b \<noteq> []"
  proof
    assume "p @ b = []"
    then have "memcmp_lastlog (lastlog s) (p @ b) (length p)" by (simp add: memcmp_lastlog_def)
    with assms(10) show False by simp
  qed
  have c2: "contents s2 f = contents s f" by (simp add: contents_def fr)
  from logger_shutdown_drains[OF assms(1,2) r2 d2 pas rm, of env]
  obtain s' where sh: "logger_shutdown env io s2 = ok s'"
    and fl: "pending s2 @ pending_summary s2 \<noteq> [] \<longrightarrow>
          files s' f = Some \<lparr>content = contents s2 f @ pending s2 @ pending_summary s2,
                             synced = length (contents s2 f @ pending s2 @ pending_summary s2)\<rparr>"
    and ot': "\<forall>g. g \<noteq> f \<longrightarrow> files s' g = files s2 g"
    and cl: "f \<in> set (closed s')"
    by blast
  have "and_then (log_all env (map (\<lambda>q. (q @ b, length q)) (p # ps)) s)
                 (logger_shutdown env io) = ok s'"
    unfolding l using sh by simp
  moreover have "files s' f = Some
          \<lparr>content = contents s f @ pending s @ pending_summary s @ (p @ b) @ ?post,
           synced = length (contents s f @ pending s @ pending_summary s @ (p @ b) @ ?post)\<rparr>"
  proof -
    have "pending s2 @ pending_summary s2 \<noteq> []" using ne p2 by auto
    with fl have "files s' f = Some \<lparr>content = contents s2 f @ pending s2 @ pending_summary s2,
                             synced = length (contents s2 f @ pending s2 @ pending_summary s2)\<rparr>"
      by blast
    then show ?thesis unfolding p2 su c2 by (simp only: append_assoc)
  qed
  moreover have "\<forall>g. g \<noteq> f \<longrightarrow> files s' g = files s g" using ot' fr by simp
  ultimately show ?thesis using cl by (intro exI[of _ s']) (intro conjI, assumption+)
qed

theorem run_of_identical_records_witness:
  "observe (\<lambda>s. files s ''log.0.txt'')
     (and_then (and_then
        (thread_start stuttering_io ''log'' (configured 64 1024 3 3 False True))
        (log_all id [(''T 3: x'' @ [nl], 5), (''U 3: x'' @ [nl], 5), (''V 3: x'' @ [nl], 5)]))
        (logger_shutdown id stuttering_io))
   = ok (Some \<lparr>content = ''T 3: x'' @ [nl] @ ''message repeated 2 times'' @ [nl],
               synced = 32\<rparr>)"
proof -
  let ?c = "configured 64 1024 3 3 False True"
  let ?ps = "[''U 3: '', ''V 3: '']"
  let ?b = "''x'' @ [nl]"
  define t where "t = ?c\<lparr>next_id := 0 + 1,
                 files := (files ?c)(logfile_name ''log'' 0 \<mapsto> \<lparr>content = [], synced = 0\<rparr>),
                 fp := Some (logfile_name ''log'' 0), currsize := 0\<rparr>"
  have n: "logfile_name ''log'' 0 = ''log.0.txt''" by code_simp
  have ff: "first_free stuttering_io ''log'' 0 ?c"
    unfolding first_free_def
  proof (intro conjI allI impI)
    fix i :: "32 word"
    assume "next_id ?c \<le> i \<and> i \<le> 0"
    then have "i = 0" by simp
    then show "length (logfile_name ''log'' i) < 1024" by (simp add: n)
  qed (simp_all add: configured_def stuttering_io_def)
  have ts: "thread_start stuttering_io ''log'' ?c = ok t"
    by (simp add: thread_start_def open_logfile_first_free(1)[OF ff] t_def)
  have io: "honours_contract (write_returns stuttering_io)"
    "makes_progress (write_returns stuttering_io)"
    by (simp_all add: stuttering_io_def honours_contract_stuttering makes_progress_stuttering)
  have ll: "lastlog t = lastlog ?c" by (simp add: t_def)
  have su: "pending_summary t = []"
    by (simp add: pending_summary_def ll configured_def word_sless_alt)
  have h3: "run t" by (simp add: t_def configured_def)
  have h4: "fp t = Some ''log.0.txt''" by (simp add: t_def n)
  have h5: "data (cur t) = Some (replicate 64 (CHR 0x00))" by (simp add: t_def configured_def cur_def)
  have h6: "offset (cur t) \<le> length (replicate 64 (CHR 0x00))" by (simp add: t_def configured_def cur_def)
  have h7: "offset (buffers t (if currbuffer t = 0 then 1 else 0)) = 0"
    by (simp add: t_def configured_def)
  have h8: "\<forall>q\<in>set (''T 3: '' # ?ps). length q + length ?b < 512" by simp
  have h9: "ll_offset (lastlog t) + length ?b \<le> 512" by (simp add: ll configured_def)
  have h10: "\<not> memcmp_lastlog (lastlog t) (''T 3: '' @ ?b) (length ''T 3: '')"
    unfolding ll by code_simp
  have h11: "length ?ps < 2 ^ 31" by simp
  have rl: "repeated_line 2 = ''message repeated 2 times'' @ [nl]" by code_simp
  have h12: "offset (cur t) + length (pending_summary t) + length (''T 3: '' @ ?b)
           + length (if 1 < length ?ps then repeated_line (of_nat (length ?ps)) else [])
         < buffersz t"
    by (simp add: su rl) (simp add: t_def configured_def cur_def)
  from run_of_identical_records [OF io h3 h4 h5 h6 h7 h8 h9 h10 h11 h12, of id]
  obtain s' where r: "and_then (log_all id (map (\<lambda>q. (q @ ?b, length q)) (''T 3: '' # ?ps)) t)
                 (logger_shutdown id stuttering_io) = ok s'"
     and p: "files s' ''log.0.txt'' = Some
          \<lparr>content = contents t ''log.0.txt'' @ pending t @ pending_summary t @ (''T 3: '' @ ?b)
               @ (if 1 < length ?ps then repeated_line (of_nat (length ?ps)) else []),
           synced = length (contents t ''log.0.txt'' @ pending t @ pending_summary t
               @ (''T 3: '' @ ?b)
               @ (if 1 < length ?ps then repeated_line (of_nat (length ?ps)) else []))\<rparr>"
    by blast
  have v: "contents t ''log.0.txt'' = []" "pending t = []"
    by (simp_all add: t_def contents_def n pending_def cur_def configured_def)
  have m: "map (\<lambda>q. (q @ ?b, length q)) (''T 3: '' # ?ps)
        = [(''T 3: x'' @ [nl], 5), (''U 3: x'' @ [nl], 5), (''V 3: x'' @ [nl], 5)]"
    by simp
  have "files s' ''log.0.txt'' = Some \<lparr>content = ''T 3: x'' @ [nl] @ ''message repeated 2 times'' @ [nl],
               synced = 32\<rparr>"
    using p by (simp add: v su rl)
  then show ?thesis
    unfolding ts and_then_ok using r [unfolded m] by (simp add: observe_def)
qed

text \<open>
  The claim as stated asks for a summary line whenever \<open>n > 1\<close>. After two identical
  records the count is 1, \<open>flush_last_log\<close> tests \<open>count > 1\<close>, and the file holds the
  first record alone: nothing tells that a second one was logged. And the summary is
  written by \<open>logger_shutdown\<close> (or by the next record that differs) only: after three
  identical records and \<open>exit_handler\<close>, which stops the thread without
  \<open>flush_last_log\<close>, the file holds the first record alone as well.
\<close>

theorem single_repeat_counterexample:
  "observe (\<lambda>s. (files s ''log.0.txt'', closed s))
     (and_then (and_then
        (thread_start reliable_io ''log'' (configured 64 1024 3 3 False True))
        (log_all id [(''T 3: x'' @ [nl], 5), (''U 3: x'' @ [nl], 5)]))
        (logger_shutdown id reliable_io))
   = ok (Some \<lparr>content = ''T 3: x'' @ [nl], synced = 7\<rparr>, [''log.0.txt''])
   \<and> observe (\<lambda>s. (files s ''log.0.txt'', closed s))
     (and_then (and_then
        (thread_start reliable_io ''log'' (configured 64 1024 3 3 False True))
        (log_all id [(''T 3: x'' @ [nl], 5), (''U 3: x'' @ [nl], 5), (''V 3: x'' @ [nl], 5)]))
        (exit_handler reliable_io))
   = ok (Some \<lparr>content = ''T 3: x'' @ [nl], synced = 7\<rparr>, [''log.0.txt''])"
  by code_simp

subsection \<open>The capacity of the buffers\<close>

lemma within_capacity_frame:
  "within_capacity s \<Longrightarrow> buffers s' = buffers s \<Longrightarrow> buffersz s' = buffersz s \<Longrightarrow>
   within_capacity s'"
  by (simp add: within_capacity_def)

lemma within_capacity_configured:
  "within_capacity (configured bsz csz level out_level pretty test)"
  by (simp add: within_capacity_def segment_ok_def configured_def)

lemma within_capacity_waiting: "within_capacity (waiting s) = within_capacity s"
  by (simp add: within_capacity_def waiting_def)

lemma within_capacity_swap: "within_capacity (swap_buffers s) = within_capacity s"
  by (simp add: within_capacity_def swap_buffers_def)

lemma within_capacity_copied:
  assumes "within_capacity s" and "offset (cur s) + length msg < buffersz s"
  shows "within_capacity (copied msg s)"
proof -
  from assms(1) have c: "segment_ok (buffersz s) (cur s)"
    by (simp add: within_capacity_def cur_def)
  have "segment_ok (buffersz s)
          \<lparr>data = map_option (\<lambda>d. memcpy_at d (offset (cur s)) msg) (data (cur s)),
           offset = offset (cur s) + length msg\<rparr>"
    using c assms(2) by (auto simp: segment_ok_def length_memcpy_at split: option.splits)
  with assms(1) show ?thesis
    by (simp add: within_capacity_def copied_def)
qed

lemma copied_holds_record:
  assumes "data (cur t) = Some d" and "offset (cur t) + length msg \<le> length d"
  shows "\<exists>d'. data (cur (copied msg t)) = Some d' \<and> length d' = length d
            \<and> take (length msg) (drop (offset (cur t)) d') = msg
            \<and> take (offset (cur t)) d' = take (offset (cur t)) d"
  using assms by (simp add: memcpy_at_def)

lemma do_add_result_aux:
  assumes "do_add_log_entry env msg s = Some r"
  shows "(\<forall>t. within_capacity t \<longrightarrow> within_capacity (env t)) \<longrightarrow> within_capacity s \<longrightarrow>
         (\<forall>s'. r = Inr s' \<longrightarrow>
            (\<exists>t d. within_capacity t \<and> data (cur t) = Some d
                 \<and> offset (cur t) + length msg < buffersz t \<and> s' = copied msg t))"
proof (rule do_add_log_entry.raw_induct
    [where P = "\<lambda>env msg s r. (\<forall>t. within_capacity t \<longrightarrow> within_capacity (env t)) \<longrightarrow>
         within_capacity s \<longrightarrow>
         (\<forall>s'. r = Inr s' \<longrightarrow>
            (\<exists>t d. within_capacity t \<and> data (cur t) = Some d
                 \<and> offset (cur t) + length msg < buffersz t \<and> s' = copied msg t))",
     OF _ assms])
  fix f :: "(logger \<Rightarrow> logger) \<Rightarrow> string \<Rightarrow> logger \<Rightarrow> logger result"
    and env msg s r
  assume IH: "\<And>env msg s r. f env msg s = Some r \<Longrightarrow>
      (\<forall>t. within_capacity t \<longrightarrow> within_capacity (env t)) \<longrightarrow> within_capacity s \<longrightarrow>
         (\<forall>s'. r = Inr s' \<longrightarrow>
            (\<exists>t d. within_capacity t \<and> data (cur t) = Some d
                 \<and> offset (cur t) + length msg < buffersz t \<and> s' = copied msg t))"
    and body: "(if buffersz s \<le> offset (cur s) + length msg
      then f env msg
             (env (if unit_test s then s else s\<lparr>stderr := stderr s @ space_warning\<rparr>))
      else (case data (cur s) of
              None \<Rightarrow> Some (Inl Use_after_free)
            | Some d \<Rightarrow>
                Some (Inr (s\<lparr>buffers := (buffers s)(currbuffer s :=
                       \<lparr>data = Some (memcpy_at d (offset (cur s)) msg),
                        offset = offset (cur s) + length msg\<rparr>)\<rparr>)))) = Some r"
  show "(\<forall>t. within_capacity t \<longrightarrow> within_capacity (env t)) \<longrightarrow> within_capacity s \<longrightarrow>
         (\<forall>s'. r = Inr s' \<longrightarrow>
            (\<exists>t d. within_capacity t \<and> data (cur t) = Some d
                 \<and> offset (cur t) + length msg < buffersz t \<and> s' = copied msg t))"
  proof (intro impI allI)
    fix s'
    assume env: "\<forall>t. within_capacity t \<longrightarrow> within_capacity (env t)"
      and inv: "within_capacity s" and r: "r = Inr s'"
    show "\<exists>t d. within_capacity t \<and> data (cur t) = Some d
                 \<and> offset (cur t) + length msg < buffersz t \<and> s' = copied msg t"
    proof (cases "buffersz s \<le> offset (cur s) + length msg")
      case True
      with body have call: "f env msg (env (waiting s)) = Some r" by (simp add: waiting_def)
      have "within_capacity (env (waiting s))"
        using env inv by (simp add: within_capacity_waiting)
      with IH[OF call] env r show ?thesis by blast
    next
      case False
      with body r obtain d where d: "data (cur s) = Some d"
        and s': "s' = s\<lparr>buffers := (buffers s)(currbuffer s :=
                       \<lparr>data = Some (memcpy_at d (offset (cur s)) msg),
                        offset = offset (cur s) + length msg\<rparr>)\<rparr>"
        by (auto split: option.splits)
      from d s' have "s' = copied msg s" by (simp add: copied_def)
      with inv d False show ?thesis by (intro exI[of _ s] exI[of _ d]) simp
    qed
  qed
qed

lemma do_add_result:
  assumes "\<forall>t. within_capacity t \<longrightarrow> within_capacity (env t)" and "within_capacity s"
    and "do_add_log_entry env msg s = ok s'"
  shows "\<exists>t d. within_capacity t \<and> data (cur t) = Some d
                 \<and> offset (cur t) + length msg < buffersz t \<and> s' = copied msg t"
  using do_add_result_aux[of env msg s "Inr s'"] assms by (simp add: ok_def)

lemma do_add_within_capacity:
  assumes "\<forall>t. within_capacity t \<longrightarrow> within_capacity (env t)" and "within_capacity s"
    and "do_add_log_entry env msg s = ok s'"
  shows "within_capacity s'"
proof -
  from do_add_result[OF assms] obtain t where "within_capacity t"
    "offset (cur t) + length msg < buffersz t" "s' = copied msg t" by blast
  then show ?thesis by (simp add: within_capacity_copied)
qed

lemma flush_last_log_within_capacity:
  assumes "\<forall>t. within_capacity t \<longrightarrow> within_capacity (env t)" and "within_capacity s"
    and "flush_last_log env s = ok s'"
  shows "within_capacity s'"
proof (cases "1 <s ll_count (lastlog s)")
  case True
  with assms(3) have "do_add_log_entry env (repeated_line (ll_count (lastlog s))) s = ok s'"
    by (simp add: flush_last_log_def)
  with assms(1,2) show ?thesis by (rule do_add_within_capacity)
next
  case False
  with assms(2,3) show ?thesis by (simp add: flush_last_log_def)
qed

lemma add_log_entry_within_capacity:
  assumes env: "\<forall>t. within_capacity t \<longrightarrow> within_capacity (env t)" and inv: "within_capacity s"
    and r: "add_log_entry env msg prefixlen s = ok s'"
  shows "within_capacity s'"
proof (cases "length msg < 512")
  case small: True
  show ?thesis
  proof (cases "ll_offset (lastlog s) + (length msg - prefixlen) > 512")
    case True
    with small r show ?thesis by (simp add: add_log_entry_def)
  next
    case inb: False
    show ?thesis
    proof (cases "memcmp_lastlog (lastlog s) msg prefixlen")
      case True
      with small inb r
      have "s' = s\<lparr>lastlog := (lastlog s)\<lparr>ll_count := ll_count (lastlog s) + 1\<rparr>\<rparr>"
        by (simp add: add_log_entry_def)
      then have "buffers s' = buffers s" "buffersz s' = buffersz s" by simp_all
      with inv show ?thesis by (rule within_capacity_frame)
    next
      case False
      with small inb r
      have "and_then (flush_last_log env s) (\<lambda>s1.
              and_then (do_add_log_entry env msg s1) (\<lambda>s2.
              ok (s2\<lparr>lastlog := \<lparr>ll_buffer = memcpy_at (ll_buffer (lastlog s2)) 0 msg,
                                 ll_count = 0, ll_offset = prefixlen\<rparr>\<rparr>))) = ok s'"
        by (simp add: add_log_entry_def)
      then obtain s1 where f: "flush_last_log env s = ok s1"
        and r1: "and_then (do_add_log_entry env msg s1) (\<lambda>s2.
              ok (s2\<lparr>lastlog := \<lparr>ll_buffer = memcpy_at (ll_buffer (lastlog s2)) 0 msg,
                                 ll_count = 0, ll_offset = prefixlen\<rparr>\<rparr>)) = ok s'"
        unfolding and_then_eq_ok[of "flush_last_log env s"] by blast
      then obtain s2 where a: "do_add_log_entry env msg s1 = ok s2"
        and e: "s' = s2\<lparr>lastlog := \<lparr>ll_buffer = memcpy_at (ll_buffer (lastlog s2)) 0 msg,
                                 ll_count = 0, ll_offset = prefixlen\<rparr>\<rparr>"
        unfolding and_then_eq_ok[of "do_add_log_entry env msg s1"] by auto
      from flush_last_log_within_capacity[OF env inv f] have "within_capacity s1" .
      from do_add_within_capacity[OF env this a] have i2: "within_capacity s2" .
      from e have "buffers s' = buffers s2" "buffersz s' = buffersz s2" by simp_all
      with i2 show ?thesis by (rule within_capacity_frame)
    qed
  qed
next
  case False
  with r have "and_then (flush_last_log env s) (\<lambda>s1.
           do_add_log_entry env msg
             (s1\<lparr>lastlog := \<lparr>ll_buffer = (ll_buffer (lastlog s1))[0 := CHR 0x00],
                              ll_count = 0, ll_offset = 0\<rparr>\<rparr>)) = ok s'"
    by (simp add: add_log_entry_def)
  then obtain s1 where f: "flush_last_log env s = ok s1"
    and a: "do_add_log_entry env msg
             (s1\<lparr>lastlog := \<lparr>ll_buffer = (ll_buffer (lastlog s1))[0 := CHR 0x00],
                              ll_count = 0, ll_offset = 0\<rparr>\<rparr>) = ok s'"
    unfolding and_then_eq_ok[of "flush_last_log env s"] by blast
  from flush_last_log_within_capacity[OF env inv f] have "within_capacity s1" .
  then have "within_capacity (s1\<lparr>lastlog := \<lparr>ll_buffer = (ll_buffer (lastlog s1))[0 := CHR 0x00],
                              ll_count = 0, ll_offset = 0\<rparr>\<rparr>)"
    by (rule within_capacity_frame) simp_all
  from do_add_within_capacity[OF env this a] show ?thesis .
qed

lemma logger_log_within_capacity:
  assumes env: "\<forall>t. within_capacity t \<longrightarrow> within_capacity (env t)" and inv: "within_capacity s"
    and r: "logger_log env severity now msg s = ok s'"
  shows "within_capacity s'"
proof -
  have st: "\<And>x. within_capacity (s\<lparr>stderr := x\<rparr>)"
    using inv by (simp add: within_capacity_def)
  show ?thesis
  proof (cases "current_log_level s \<le> severity \<or> output_level s \<le> severity")
    case False
    with r inv show ?thesis by (simp add: logger_log_def)
  next
    case gate: True
    show ?thesis
    proof (cases now)
      case (Clock_failed e)
      with gate r st show ?thesis by (auto simp: logger_log_def)
    next
      case (Clock stamp)
      let ?prefix = "stamp @ severity_text (prettyprint s) severity"
      show ?thesis
      proof (cases "length ?prefix + length msg < 2047")
        case True
        note fits = logger_log_fits[OF gate True, of env]
        show ?thesis
        proof (cases "current_log_level s \<le> severity")
          case True
          with fits r Clock have a: "add_log_entry env (terminate_line (stamp @ severity_text (prettyprint s) severity @ msg))
             (length ?prefix)
             (if output_level s \<le> severity
              then s\<lparr>stderr := stderr s @ c_string (terminate_line (stamp @ severity_text (prettyprint s) severity @ msg))\<rparr>
              else s) = ok s'" by simp
          have i: "within_capacity (if output_level s \<le> severity
              then s\<lparr>stderr := stderr s @ c_string (terminate_line (stamp @ severity_text (prettyprint s) severity @ msg))\<rparr>
              else s)" using inv st by simp
          from env i a show ?thesis by (rule add_log_entry_within_capacity)
        next
          case False
          with fits r Clock inv st show ?thesis by (auto split: if_splits)
        qed
      next
        case False
        show ?thesis
        proof (cases "2047 < length ?prefix")
          case True
          with gate r Clock show ?thesis by (simp add: logger_log_def Let_def)
        next
          case le: False
          with False have "2047 \<le> length ?prefix + length msg" "length ?prefix \<le> 2047" by simp_all
          from logger_log_too_big[OF gate this(2,1), of env] r Clock st show ?thesis by auto
        qed
      qed
    qed
  qed
qed

lemma flush_pending_io_within_capacity:
  assumes "flush_pending_io io file i s = ok (n, s1)" and "within_capacity s"
  shows "within_capacity s1"
proof (cases "0 < offset (buffers s i)")
  case False
  with assms show ?thesis by (simp add: flush_pending_io_def)
next
  case True
  with assms(1) obtain f d where f: "file = Some f" and d: "data (buffers s i) = Some d"
    by (auto simp: flush_pending_io_def crash_def ok_def split: option.splits)
  with assms(1) True obtain out k where
    s1: "s1 = s\<lparr>buffers := (buffers s)(i := (buffers s i)\<lparr>offset := 0\<rparr>),
            files := (files s)(f \<mapsto> \<lparr>content = contents s f @ out,
                                      synced = length (contents s f @ out)\<rparr>),
            io_calls := k\<rparr>"
    by (auto simp: flush_pending_io_def ok_def Option.bind_eq_Some_conv)
  from assms(2) have "segment_ok (buffersz s) (buffers s i)" by (simp add: within_capacity_def)
  then have "segment_ok (buffersz s) ((buffers s i)\<lparr>offset := 0\<rparr>)"
    by (simp add: segment_ok_def)
  with assms(2) show ?thesis unfolding s1 by (simp add: within_capacity_def)
qed

lemma open_logfile_within_capacity:
  assumes "open_logfile io fnm s = ok (h, s')" and "within_capacity s"
  shows "within_capacity s'"
proof -
  from open_logfile_cases[OF assms(1)] have "buffers s' = buffers s" "buffersz s' = buffersz s"
    by auto
  with assms(2) show ?thesis by (rule within_capacity_frame)
qed

lemma close_logfile_within_capacity:
  "within_capacity s \<Longrightarrow> within_capacity (close_logfile file s)"
  by (cases "file") (simp_all add: close_logfile_def within_capacity_def)

lemma thread_start_within_capacity:
  assumes "thread_start io fnm s = ok s'" and "within_capacity s"
  shows "within_capacity s'"
proof -
  from assms(1) obtain h s1 where op: "open_logfile io fnm s = ok (h, s1)"
    and e: "s' = s1\<lparr>fp := h, currsize := 0\<rparr>"
    by (auto simp: thread_start_def and_then_eq_ok split: prod.splits)
  from open_logfile_within_capacity[OF op assms(2)] have "within_capacity s1" .
  then show ?thesis unfolding e by (rule within_capacity_frame) simp_all
qed

lemma flusher_cycle_within_capacity:
  assumes "flusher_cycle io fnm s = ok s'" and "within_capacity s"
  shows "within_capacity s'"
proof -
  let ?t0 = "swap_buffers s"
  from assms(1) obtain n s1 where fl: "flush_pending_io io (fp ?t0) (currbuffer s) ?t0 = ok (n, s1)"
    and rest: "(if currsize s1 + n > cyclesz s1
       then and_then (reopen_logfile io (fp s1) fnm s1)
              (\<lambda>(h, s2). ok (s2\<lparr>fp := h, currsize := 0\<rparr>))
       else ok (s1\<lparr>currsize := currsize s1 + n\<rparr>)) = ok s'"
    unfolding flusher_cycle_def flusher_io_def and_then_eq_ok by auto
  have "within_capacity ?t0" using assms(2) by (simp add: within_capacity_swap)
  from flush_pending_io_within_capacity[OF fl this] have i1: "within_capacity s1" .
  show ?thesis
  proof (cases "currsize s1 + n > cyclesz s1")
    case False
    with rest have e: "s' = s1\<lparr>currsize := currsize s1 + n\<rparr>" by simp
    from i1 show ?thesis unfolding e by (rule within_capacity_frame) simp_all
  next
    case True
    with rest obtain h s2 where op: "open_logfile io fnm (close_logfile (fp s1) s1) = ok (h, s2)"
      and e: "s' = s2\<lparr>fp := h, currsize := 0\<rparr>"
      by (auto simp: reopen_logfile_def and_then_eq_ok split: prod.splits)
    from close_logfile_within_capacity[OF i1] have "within_capacity (close_logfile (fp s1) s1)" .
    from open_logfile_within_capacity[OF op this] have "within_capacity s2" .
    then show ?thesis unfolding e by (rule within_capacity_frame) simp_all
  qed
qed

lemma drain_within_capacity_aux:
  assumes "drain io file s = Some r"
  shows "within_capacity s \<longrightarrow> (\<forall>s'. r = Inr s' \<longrightarrow> within_capacity s')"
proof (rule drain.raw_induct
    [where P = "\<lambda>io file s r. within_capacity s \<longrightarrow> (\<forall>s'. r = Inr s' \<longrightarrow> within_capacity s')",
     OF _ assms])
  fix f :: "io_ops \<Rightarrow> string option \<Rightarrow> logger \<Rightarrow> logger result"
    and io "file" s r
  assume IH: "\<And>io file s r. f io file s = Some r \<Longrightarrow>
                within_capacity s \<longrightarrow> (\<forall>s'. r = Inr s' \<longrightarrow> within_capacity s')"
    and body: "(if offset (cur s) \<noteq> 0
      then Option.bind (flush_pending_io io file (currbuffer s) (swap_buffers s))
             (\<lambda>r. case r of Inl f \<Rightarrow> Some (Inl f) | Inr x \<Rightarrow> f io file (snd x))
      else Some (Inr s)) = Some r"
  show "within_capacity s \<longrightarrow> (\<forall>s'. r = Inr s' \<longrightarrow> within_capacity s')"
  proof (intro impI allI)
    fix s' assume inv: "within_capacity s" and r: "r = Inr s'"
    show "within_capacity s'"
    proof (cases "offset (cur s) \<noteq> 0")
      case False
      with body r inv show ?thesis by simp
    next
      case True
      with body obtain x where x: "flush_pending_io io file (currbuffer s) (swap_buffers s) = Some x"
        and c: "(case x of Inl f \<Rightarrow> Some (Inl f) | Inr x \<Rightarrow> f io file (snd x)) = Some r"
        by (auto simp: Option.bind_eq_Some_conv)
      from c r obtain n s1 where xx: "x = Inr (n, s1)" and call: "f io file s1 = Some r"
        by (cases x) auto
      from x xx have fl: "flush_pending_io io file (currbuffer s) (swap_buffers s) = ok (n, s1)"
        by (simp add: ok_def)
      have "within_capacity (swap_buffers s)" using inv by (simp add: within_capacity_swap)
      from flush_pending_io_within_capacity[OF fl this] have "within_capacity s1" .
      with IH[OF call] r show ?thesis by blast
    qed
  qed
qed

lemma drain_within_capacity:
  assumes "drain io file s = ok s'" and "within_capacity s"
  shows "within_capacity s'"
  using drain_within_capacity_aux[of io "file" s "Inr s'"] assms by (simp add: ok_def)

lemma free_buffers_within_capacity:
  "within_capacity s \<Longrightarrow> within_capacity (free_buffers s)"
  by (simp add: within_capacity_def free_buffers_def segment_ok_def)

lemma thread_exit_within_capacity:
  assumes "thread_exit io s = ok s'" and "within_capacity s"
  shows "within_capacity s'"
proof (cases "fp s")
  case None
  with assms(1) have "s' = free_buffers s" by (simp add: thread_exit_def)
  with assms(2) show ?thesis by (simp add: free_buffers_within_capacity)
next
  case (Some f)
  with assms(1) obtain s1 where d: "drain io (fp s) s = ok s1"
    and e: "s' = free_buffers (close_logfile (fp s1) s1)"
    by (auto simp: thread_exit_def and_then_eq_ok)
  from drain_within_capacity[OF d assms(2)] have "within_capacity s1" .
  then show ?thesis unfolding e
    by (intro free_buffers_within_capacity close_logfile_within_capacity)
qed

lemma logger_shutdown_within_capacity:
  assumes env: "\<forall>t. within_capacity t \<longrightarrow> within_capacity (env t)" and inv: "within_capacity s"
    and r: "logger_shutdown env io s = ok s'"
  shows "within_capacity s'"
proof -
  from r obtain s1 where f: "flush_last_log env s = ok s1"
    and rest: "(if run s1 then thread_exit io (s1\<lparr>run := False\<rparr>) else ok (s1\<lparr>run := False\<rparr>)) = ok s'"
    by (auto simp: logger_shutdown_def and_then_eq_ok)
  from flush_last_log_within_capacity[OF env inv f] have "within_capacity s1" .
  then have i: "within_capacity (s1\<lparr>run := False\<rparr>)" by (rule within_capacity_frame) simp_all
  show ?thesis
  proof (cases "run s1")
    case True
    with rest have "thread_exit io (s1\<lparr>run := False\<rparr>) = ok s'" by simp
    from thread_exit_within_capacity[OF this i] show ?thesis .
  next
    case False
    with rest i show ?thesis by simp
  qed
qed

lemma do_add_blocked_aux:
  assumes "do_add_log_entry env msg s = Some r"
  shows "(\<forall>t. no_room msg t \<longrightarrow> no_room msg (env t)) \<longrightarrow> no_room msg s \<longrightarrow> False"
proof (rule do_add_log_entry.raw_induct
    [where P = "\<lambda>env msg s r. (\<forall>t. no_room msg t \<longrightarrow> no_room msg (env t)) \<longrightarrow> no_room msg s \<longrightarrow> False",
     OF _ assms])
  fix f :: "(logger \<Rightarrow> logger) \<Rightarrow> string \<Rightarrow> logger \<Rightarrow> logger result"
    and env msg s r
  assume IH: "\<And>env msg s r. f env msg s = Some r \<Longrightarrow>
      (\<forall>t. no_room msg t \<longrightarrow> no_room msg (env t)) \<longrightarrow> no_room msg s \<longrightarrow> False"
    and body: "(if buffersz s \<le> offset (cur s) + length msg
      then f env msg
             (env (if unit_test s then s else s\<lparr>stderr := stderr s @ space_warning\<rparr>))
      else (case data (cur s) of
              None \<Rightarrow> Some (Inl Use_after_free)
            | Some d \<Rightarrow>
                Some (Inr (s\<lparr>buffers := (buffers s)(currbuffer s :=
                       \<lparr>data = Some (memcpy_at d (offset (cur s)) msg),
                        offset = offset (cur s) + length msg\<rparr>)\<rparr>)))) = Some r"
  show "(\<forall>t. no_room msg t \<longrightarrow> no_room msg (env t)) \<longrightarrow> no_room msg s \<longrightarrow> False"
  proof (intro impI)
    assume env: "\<forall>t. no_room msg t \<longrightarrow> no_room msg (env t)" and full: "no_room msg s"
    from full body have call: "f env msg (env (waiting s)) = Some r"
      by (simp add: no_room_def waiting_def)
    from full have "no_room msg (waiting s)" by (simp add: no_room_def waiting_def cur_def)
    with env have "no_room msg (env (waiting s))" by blast
    with IH[OF call] env show False by blast
  qed
qed

lemma do_add_blocked:
  assumes "\<forall>t. no_room msg t \<longrightarrow> no_room msg (env t)" and "no_room msg s"
  shows "do_add_log_entry env msg s = None"
proof (cases "do_add_log_entry env msg s")
  case None
  then show ?thesis .
next
  case (Some r)
  from do_add_blocked_aux[OF this] assms show ?thesis by blast
qed

lemma do_add_after_swap:
  assumes "no_room msg s" and "length msg < buffersz s"
    and "offset (buffers s (if currbuffer s = 0 then 1 else 0)) = 0"
    and "data (buffers s (if currbuffer s = 0 then 1 else 0)) = Some d"
  shows "do_add_log_entry swap_buffers msg s = ok (copied msg (swap_buffers (waiting s)))"
proof -
  let ?t = "swap_buffers (waiting s)"
  have w: "do_add_log_entry swap_buffers msg s = do_add_log_entry swap_buffers msg ?t"
    using assms(1) by (subst do_add_log_entry.simps) (simp add: no_room_def waiting_def)
  have c: "cur ?t = buffers s (if currbuffer s = 0 then 1 else 0)" "buffersz ?t = buffersz s"
    by (simp_all add: cur_def swap_buffers_def waiting_def)
  have "do_add_log_entry swap_buffers msg ?t = ok (copied msg ?t)"
  proof (rule do_add_room[where d = d])
    show "offset (cur ?t) + length msg < buffersz ?t" unfolding c using assms(2,3) by simp
    show "data (cur ?t) = Some d" unfolding c using assms(4) .
  qed
  with w show ?thesis by simp
qed

text \<open>
  C2. The capacity invariant holds after initialisation and is kept by every operation
  that returns: a flip of the buffers, the start of the thread, a call of the log
  entry point, a round of the background thread, a shutdown; the calls that may wait
  keep it provided the other threads, which run during the wait, keep it. An append
  that returns has copied the whole record behind the used part of a buffer that had
  room for it (offset plus size below \<open>buffersz\<close>): the segment has the length it
  had, the bytes before the record are untouched. An append whose size reaches the
  space left does not return as long as the other threads leave the buffer without
  room; when the background thread flips the buffers and the other buffer is empty, it
  returns with the record at the start of that buffer (if the record is shorter than a
  buffer at all).
\<close>

theorem buffers_within_capacity:
  assumes env: "\<forall>t. within_capacity t \<longrightarrow> within_capacity (env t)"
  shows "within_capacity (configured bsz csz level out_level pretty test)
    \<and> (within_capacity s \<longrightarrow>
          within_capacity (swap_buffers s)
        \<and> (\<forall>s'. thread_start io fnm s = ok s' \<longrightarrow> within_capacity s')
        \<and> (\<forall>s'. logger_log env severity now msg s = ok s' \<longrightarrow> within_capacity s')
        \<and> (\<forall>s'. flusher_cycle io fnm s = ok s' \<longrightarrow> within_capacity s')
        \<and> (\<forall>s'. logger_shutdown env io s = ok s' \<longrightarrow> within_capacity s')
        \<and> (\<forall>s'. do_add_log_entry env rcd s = ok s' \<longrightarrow>
             (\<exists>t d d'. within_capacity t \<and> data (cur t) = Some d
                \<and> offset (cur t) + length rcd < buffersz t
                \<and> s' = copied rcd t \<and> data (cur s') = Some d' \<and> length d' = length d
                \<and> take (length rcd) (drop (offset (cur t)) d') = rcd
                \<and> take (offset (cur t)) d' = take (offset (cur t)) d)))
    \<and> (no_room rcd s \<longrightarrow>
          ((\<forall>t. no_room rcd t \<longrightarrow> no_room rcd (others t)) \<longrightarrow>
             do_add_log_entry others rcd s = None)
        \<and> (length rcd < buffersz s
           \<and> offset (buffers s (if currbuffer s = 0 then 1 else 0)) = 0
           \<and> data (buffers s (if currbuffer s = 0 then 1 else 0)) = Some d0 \<longrightarrow>
             do_add_log_entry swap_buffers rcd s = ok (copied rcd (swap_buffers (waiting s)))))"
proof (intro conjI impI allI)
  show "within_capacity (configured bsz csz level out_level pretty test)"
    by (rule within_capacity_configured)
next
  assume "within_capacity s"
  then show "within_capacity (swap_buffers s)" by (simp add: within_capacity_swap)
next
  fix s' assume "within_capacity s" "thread_start io fnm s = ok s'"
  then show "within_capacity s'" by (simp add: thread_start_within_capacity)
next
  fix s' assume "within_capacity s" "logger_log env severity now msg s = ok s'"
  with env show "within_capacity s'" by (rule logger_log_within_capacity)
next
  fix s' assume "within_capacity s" "flusher_cycle io fnm s = ok s'"
  then show "within_capacity s'" by (simp add: flusher_cycle_within_capacity)
next
  fix s' assume "within_capacity s" "logger_shutdown env io s = ok s'"
  with env show "within_capacity s'" by (rule logger_shutdown_within_capacity)
next
  fix s' assume inv: "within_capacity s" and r: "do_add_log_entry env rcd s = ok s'"
  from do_add_result[OF env inv r] obtain t d where t: "within_capacity t" "data (cur t) = Some d"
    "offset (cur t) + length rcd < buffersz t" "s' = copied rcd t"
    by blast
  from t(1) have "segment_ok (buffersz t) (cur t)" by (simp add: within_capacity_def cur_def)
  with t(2) have "length d = buffersz t" by (simp add: segment_ok_def)
  with t(3) have "offset (cur t) + length rcd \<le> length d" by simp
  from copied_holds_record[OF t(2) this] obtain d' where
    "data (cur (copied rcd t)) = Some d'" "length d' = length d"
    "take (length rcd) (drop (offset (cur t)) d') = rcd"
    "take (offset (cur t)) d' = take (offset (cur t)) d"
    by blast
  with t show "\<exists>t d d'. within_capacity t \<and> data (cur t) = Some d
                \<and> offset (cur t) + length rcd < buffersz t
                \<and> s' = copied rcd t \<and> data (cur s') = Some d' \<and> length d' = length d
                \<and> take (length rcd) (drop (offset (cur t)) d') = rcd
                \<and> take (offset (cur t)) d' = take (offset (cur t)) d"
    by blast
next
  assume "no_room rcd s" "\<forall>t. no_room rcd t \<longrightarrow> no_room rcd (others t)"
  then show "do_add_log_entry others rcd s = None" by (simp add: do_add_blocked)
next
  assume n: "no_room rcd s" and a: "length rcd < buffersz s
           \<and> offset (buffers s (if currbuffer s = 0 then 1 else 0)) = 0
           \<and> data (buffers s (if currbuffer s = 0 then 1 else 0)) = Some d0"
  from a have "length rcd < buffersz s"
    "offset (buffers s (if currbuffer s = 0 then 1 else 0)) = 0"
    "data (buffers s (if currbuffer s = 0 then 1 else 0)) = Some d0" by simp_all
  with n show "do_add_log_entry swap_buffers rcd s = ok (copied rcd (swap_buffers (waiting s)))"
    by (rule do_add_after_swap)
qed

theorem buffers_within_capacity_witness:
  "within_capacity (configured 64 1024 3 3 False True)
   \<and> do_add_log_entry id (replicate 40 (CHR ''x''))
        (copied (replicate 40 (CHR ''y'')) (configured 64 1024 3 3 False True)) = None
   \<and> observe pending
       (do_add_log_entry swap_buffers (replicate 40 (CHR ''x''))
          (copied (replicate 40 (CHR ''y'')) (configured 64 1024 3 3 False True)))
     = ok (replicate 40 (CHR ''x''))"
proof -
  let ?s = "copied (replicate 40 (CHR ''y'')) (configured 64 1024 3 3 False True)"
  let ?rcd = "replicate 40 (CHR ''x'')"
  have h: "\<forall>t. within_capacity t \<longrightarrow> within_capacity (id t)" by simp
  have n: "no_room ?rcd ?s" by (simp add: no_room_def copied_def configured_def cur_def)
  have k: "\<forall>t. no_room ?rcd t \<longrightarrow> no_room ?rcd (id t)" by simp
  have a: "length ?rcd < buffersz ?s
           \<and> offset (buffers ?s (if currbuffer ?s = 0 then 1 else 0)) = 0
           \<and> data (buffers ?s (if currbuffer ?s = 0 then 1 else 0)) = Some (replicate 64 (CHR 0x00))"
    by (simp add: copied_def configured_def cur_def)
  note t = buffers_within_capacity [OF h, of 64 1024 3 3 False True ?s _ _ _ _ _ ?rcd id "replicate 64 (CHR 0x00)"]
  from t have c1: "within_capacity (configured 64 1024 3 3 False True)" by blast
  from t n k have c2: "do_add_log_entry id ?rcd ?s = None" by blast
  from t n a have c3: "do_add_log_entry swap_buffers ?rcd ?s = ok (copied ?rcd (swap_buffers (waiting ?s)))"
    by blast
  have v: "pending (copied ?rcd (swap_buffers (waiting ?s))) = ?rcd" by code_simp
  from c1 c2 c3 v show ?thesis by (simp add: observe_def)
qed

end
